theory Spec2Isabelle
  imports Complex_Main "HOL-Library.Multiset"
begin

section \<open>Fixed-width integers of the arrays\<close>

text \<open>
  The timestamps are held in an \<open>int64\<close> array (\<open>_ts = ....values.astype("int64")\<close>) and the
  three result arrays are \<open>int32\<close> (\<open>np.empty(len(_trips), dtype="int32")\<close>). Array
  arithmetic and the cast on assignment wrap around silently, so both are integers with
  the two's complement wrap-around written out.
\<close>

definition int64 :: "int \<Rightarrow> int" where
  "int64 x = (x + 9223372036854775808) mod 18446744073709551616 - 9223372036854775808"

definition int32 :: "int \<Rightarrow> int" where
  "int32 x = (x + 2147483648) mod 4294967296 - 2147483648"

text \<open>The window lengths in nanoseconds, \<open>_ns_1h\<close>, \<open>_ns_6h\<close> and \<open>_ns_24h\<close>.\<close>

definition ns_1h :: int where
  "ns_1h = 3600000000000"

definition ns_6h :: int where
  "ns_6h = 21600000000000"

definition ns_24h :: int where
  "ns_24h = 86400000000000"

section \<open>The rolling window counter\<close>

text \<open>
  \<open>np.searchsorted(a, v, side="left")\<close> is a binary search for every key of \<open>v\<close>:
  between \<open>lo\<close> and \<open>hi\<close> it probes the middle element and keeps the right half when
  that element is smaller than the key, the left half otherwise. The library documents
  the result for an ascending array \<open>a\<close> only, where it is the smallest index whose
  element is not below the key; on any other array the search still ends with some index
  between 0 and the length of \<open>a\<close>.
\<close>

function binsearch_left :: "int list \<Rightarrow> int \<Rightarrow> nat \<Rightarrow> nat \<Rightarrow> nat" where
  "binsearch_left a key lo hi =
     (if lo < hi then
        (let mid = lo + (hi - lo) div 2 in
         if a ! mid < key then binsearch_left a key (mid + 1) hi
         else binsearch_left a key lo mid)
      else lo)"
  by pat_completeness auto
termination
  by (relation "measure (\<lambda>(a, key, lo, hi). hi - lo)") auto

declare binsearch_left.simps [simp del]

text \<open>The search for one key runs over the whole array; the spec calls it \<open>lower_bound\<close>.\<close>

definition lower_bound :: "int list \<Rightarrow> int \<Rightarrow> nat" where
  "lower_bound a key = binsearch_left a key 0 (length a)"

definition searchsorted_left :: "int list \<Rightarrow> int list \<Rightarrow> nat list" where
  "searchsorted_left a v = map (lower_bound a) v"

text \<open>\<open>np.arange(n)\<close> and the array minus a scalar on \<open>int64\<close>.\<close>

definition arange :: "nat \<Rightarrow> int list" where
  "arange n = map int [0..<n]"

definition sub_scalar :: "int list \<Rightarrow> int \<Rightarrow> int list" where
  "sub_scalar t w = map (\<lambda>x. int64 (x - w)) t"

text \<open>
  The right-hand side of one assignment of the loop body, for the timestamps \<open>_t\<close> of one
  zone and one window: \<open>_local_idx - np.searchsorted(_t, _t - w, side="left")\<close>, as it
  is stored in the \<open>int32\<close> result array.
\<close>

definition rolling :: "int list \<Rightarrow> int \<Rightarrow> int list" where
  "rolling t w =
     map2 (\<lambda>i p. int32 (i - int p)) (arange (length t)) (searchsorted_left t (sub_scalar t w))"


section \<open>The event normalizer\<close>

text \<open>
  A raw row holds the two columns that are read from the files. A missing value (\<open>None\<close>,
  \<open>NaN\<close>, \<open>NaT\<close>) is \<open>None\<close>; a timestamp is its number of nanoseconds since the epoch.
\<close>

record raw_trip =
  raw_pickup_datetime :: "int option"
  raw_PULocationID :: "int option"

record trip =
  pickup_datetime :: int
  PULocationID :: int

text \<open>\<open>dropna(subset=["pickup_datetime", "PULocationID"])\<close>.\<close>

definition dropna :: "raw_trip list \<Rightarrow> raw_trip list" where
  "dropna rs = filter (\<lambda>r. raw_pickup_datetime r \<noteq> None \<and> raw_PULocationID r \<noteq> None) rs"

text \<open>
  \<open>astype("int32")\<close> on the zone column. A column with a missing value anywhere in the
  loaded table is a \<open>float64\<close> column (the missing value is \<open>NaN\<close>), and it stays one after
  the rows are dropped; a column without one is an integer column. The cast of an integer
  column wraps around. The cast of a float column keeps a whole number in the \<open>int32\<close>
  range and gives the smallest \<open>int32\<close> for a number outside it.
\<close>

definition zone_is_float :: "raw_trip list \<Rightarrow> bool" where
  "zone_is_float rs = list_ex (\<lambda>r. raw_PULocationID r = None) rs"

definition astype_int32 :: "bool \<Rightarrow> int \<Rightarrow> int" where
  "astype_int32 is_float z =
     (if is_float
      then (if - 2147483648 \<le> z \<and> z < 2147483648 then z else - 2147483648)
      else int32 z)"

text \<open>The row with its columns typed.\<close>

fun typed :: "bool \<Rightarrow> raw_trip \<Rightarrow> trip option" where
  "typed is_float r =
     (case (raw_pickup_datetime r, raw_PULocationID r) of
        (Some t, Some z) \<Rightarrow> Some \<lparr>pickup_datetime = t, PULocationID = astype_int32 is_float z\<rparr>
      | _ \<Rightarrow> None)"

definition clean_trips :: "raw_trip list \<Rightarrow> trip list" where
  "clean_trips rs = List.map_filter (typed (zone_is_float rs)) (dropna rs)"

text \<open>
  What the script prints between loading and sorting: the number of rows loaded
  (\<open>Total trips loaded\<close>), before the rows with a missing value are dropped.
\<close>

definition printed_on_load :: "raw_trip list \<Rightarrow> nat list" where
  "printed_on_load rs = [length rs]"

text \<open>
  The number of rows that the drop leaves out. The script does not compute it: it is the
  difference of the length before and the length after.
\<close>

definition dropped_rows :: "raw_trip list \<Rightarrow> nat" where
  "dropped_rows rs = length rs - length (clean_trips rs)"

section \<open>The entity partitioner\<close>

text \<open>
  \<open>sort_values(["PULocationID", "pickup_datetime"])\<close> sorts on several columns
  lexicographically and keeps the input order of equal rows. It is the stable sort on
  the last column followed by the stable sort on the first. The rows may carry more
  columns than the two keys.
\<close>

definition sort_values :: "'a trip_scheme list \<Rightarrow> 'a trip_scheme list" where
  "sort_values xs = sort_key PULocationID (sort_key pickup_datetime xs)"

text \<open>
  \<open>np.unique(_zone, return_index=True)\<close>: the distinct values in ascending order and,
  for each, the index of its first occurrence.
\<close>

fun first_index :: "int list \<Rightarrow> int \<Rightarrow> nat" where
  "first_index [] v = 0"
| "first_index (x # xs) v = (if x = v then 0 else Suc (first_index xs v))"

definition unique_values :: "int list \<Rightarrow> int list" where
  "unique_values zs = sort (remdups zs)"

definition zone_starts :: "int list \<Rightarrow> nat list" where
  "zone_starts zs = map (first_index zs) (unique_values zs)"

text \<open>\<open>np.append(_zone_starts[1:], len(_zone))\<close>.\<close>

definition zone_ends :: "int list \<Rightarrow> nat list" where
  "zone_ends zs = tl (zone_starts zs) @ [length zs]"

section \<open>The loop over the zones\<close>

definition slice :: "'a list \<Rightarrow> nat \<Rightarrow> nat \<Rightarrow> 'a list" where
  "slice xs s e = take (e - s) (drop s xs)"

text \<open>
  \<open>r[s:e] = v\<close>, where \<open>v\<close> has as many entries as the slice \<open>r[s:e]\<close>.
\<close>

definition assign_slice :: "int list \<Rightarrow> nat \<Rightarrow> int list \<Rightarrow> int list" where
  "assign_slice r s v = take s r @ v @ drop (s + length v) r"

text \<open>
  \<open>np.empty(n, dtype="int32")\<close> allocates without initialising: the content is whatever
  the memory held, here the function \<open>mem\<close>.
\<close>

definition np_empty :: "(nat \<Rightarrow> int) \<Rightarrow> nat \<Rightarrow> int list" where
  "np_empty mem n = map mem [0..<n]"

text \<open>The three result arrays \<open>_r1h\<close>, \<open>_r6h\<close> and \<open>_r24h\<close>.\<close>

record counts =
  r1h :: "int list"
  r6h :: "int list"
  r24h :: "int list"

text \<open>The body of the loop for the zone with the bounds \<open>_s\<close> and \<open>_e\<close>.\<close>

definition zone_body :: "int list \<Rightarrow> nat \<times> nat \<Rightarrow> counts \<Rightarrow> counts" where
  "zone_body ts b c =
     (let s = fst b; e = snd b; t = slice ts s e
      in \<lparr>r1h = assign_slice (r1h c) s (rolling t ns_1h),
          r6h = assign_slice (r6h c) s (rolling t ns_6h),
          r24h = assign_slice (r24h c) s (rolling t ns_24h)\<rparr>)"

definition zone_loop :: "int list \<Rightarrow> int list \<Rightarrow> counts \<Rightarrow> counts" where
  "zone_loop ts zone c = fold (zone_body ts) (zip (zone_starts zone) (zone_ends zone)) c"

text \<open>
  The trip-level table after the loop: the sorted trips with the three rolling columns.
\<close>

record trip_features = trip +
  rolling_1h :: int
  rolling_6h :: int
  rolling_24h :: int

definition with_columns :: "trip list \<Rightarrow> counts \<Rightarrow> trip_features list" where
  "with_columns trips c =
     map (\<lambda>i. \<lparr>pickup_datetime = pickup_datetime (trips ! i),
               PULocationID = PULocationID (trips ! i),
               rolling_1h = r1h c ! i, rolling_6h = r6h c ! i, rolling_24h = r24h c ! i\<rparr>)
       [0..<length trips]"

definition trip_level :: "(nat \<Rightarrow> nat \<Rightarrow> int) \<Rightarrow> raw_trip list \<Rightarrow> trip_features list" where
  "trip_level mem raw =
     (let trips = sort_values (clean_trips raw);
          ts = map pickup_datetime trips;
          zone = map PULocationID trips;
          n = length trips;
          c = zone_loop ts zone \<lparr>r1h = np_empty (mem 0) n, r6h = np_empty (mem 1) n,
                                   r24h = np_empty (mem 2) n\<rparr>
      in with_columns trips c)"

text \<open>
  After the loop the script prints the smallest and the largest count of each of the three
  result arrays (\<open>_r1h.min()\<close>, \<open>_r1h.max()\<close>, ...). The minimum and the maximum of an
  empty array raise \<open>ValueError\<close>, so for a table without rows the run ends there.
\<close>

datatype error = ValueError

definition array_min :: "int list \<Rightarrow> error + int" where
  "array_min xs = (case xs of [] \<Rightarrow> Inl ValueError | x # ys \<Rightarrow> Inr (fold min ys x))"

definition array_max :: "int list \<Rightarrow> error + int" where
  "array_max xs = (case xs of [] \<Rightarrow> Inl ValueError | x # ys \<Rightarrow> Inr (fold max ys x))"

fun printed_then :: "error + int \<Rightarrow> error + int list \<Rightarrow> error + int list" where
  "printed_then (Inl e) rest = Inl e"
| "printed_then (Inr x) (Inl e) = Inl e"
| "printed_then (Inr x) (Inr xs) = Inr (x # xs)"

definition print_ranges :: "trip_features list \<Rightarrow> error + int list" where
  "print_ranges rows =
     printed_then (array_min (map rolling_1h rows)) (printed_then (array_max (map rolling_1h rows))
    (printed_then (array_min (map rolling_6h rows)) (printed_then (array_max (map rolling_6h rows))
    (printed_then (array_min (map rolling_24h rows)) (printed_then (array_max (map rolling_24h rows))
    (Inr []))))))"

text \<open>
  The \<open>date\<close> column of the aggregation. \<open>dt.normalize()\<close> sets the time of day to
  midnight: the timestamp minus its remainder modulo one day. A midnight below the
  smallest \<open>int64\<close> is no timestamp: for a pickup time before 1677-09-22 00:00 the call raises
  \<open>ValueError\<close>, and the run ends there. The call is made on the whole column, so one such
  row is enough.
\<close>

definition dt_normalize :: "int \<Rightarrow> error + int" where
  "dt_normalize t =
     (if t - t mod ns_24h < - 9223372036854775808 then Inl ValueError
      else Inr (t - t mod ns_24h))"

record trip_dated = trip_features +
  trip_date :: int

fun with_date :: "trip_features list \<Rightarrow> error + trip_dated list" where
  "with_date [] = Inr []"
| "with_date (r # rs) =
     (case dt_normalize (pickup_datetime r) of
        Inl e \<Rightarrow> Inl e
      | Inr d \<Rightarrow>
          (case with_date rs of
             Inl e \<Rightarrow> Inl e
           | Inr ds \<Rightarrow>
               Inr (\<lparr>pickup_datetime = pickup_datetime r, PULocationID = PULocationID r,
                     rolling_1h = rolling_1h r, rolling_6h = rolling_6h r,
                     rolling_24h = rolling_24h r, trip_date = d\<rparr> # ds)))"

section \<open>The daily aggregator\<close>

record daily =
  date :: int
  zone :: int
  daily_trips :: nat
  rolling_1h_mean :: rat
  rolling_6h_mean :: rat
  rolling_24h_mean :: rat

text \<open>
  The keys of \<open>groupby(["date", "PULocationID"], sort=True)\<close>: the distinct pairs in
  ascending lexicographic order.
\<close>

definition group_key :: "trip_dated \<Rightarrow> int \<times> int" where
  "group_key r = (trip_date r, PULocationID r)"

definition group_keys :: "trip_dated list \<Rightarrow> (int \<times> int) list" where
  "group_keys rows = sort_key fst (sort_key snd (remdups (map group_key rows)))"

text \<open>
  The mean of a column over a group and its rounding to two decimals (to the even
  neighbour at a tie), in exact arithmetic: the binary floating point of the source is
  not part of this development.
\<close>

definition mean :: "int list \<Rightarrow> rat" where
  "mean xs = of_int (sum_list xs) / of_nat (length xs)"

definition round_half_even :: "rat \<Rightarrow> int" where
  "round_half_even q =
     (let f = \<lfloor>q\<rfloor>; d = q - of_int f
      in if d < 1 / 2 then f else if 1 / 2 < d then f + 1 else if even f then f else f + 1)"

definition round2 :: "rat \<Rightarrow> rat" where
  "round2 q = of_int (round_half_even (q * 100)) / 100"

definition agg :: "trip_dated list \<Rightarrow> int \<times> int \<Rightarrow> daily" where
  "agg rows k =
     (let g = filter (\<lambda>r. group_key r = k) rows
      in \<lparr>date = fst k, zone = snd k, daily_trips = length g,
          rolling_1h_mean = round2 (mean (map rolling_1h g)),
          rolling_6h_mean = round2 (mean (map rolling_6h g)),
          rolling_24h_mean = round2 (mean (map rolling_24h g))\<rparr>)"

definition groupby_agg :: "trip_dated list \<Rightarrow> daily list" where
  "groupby_agg rows = map (agg rows) (group_keys rows)"

text \<open>
  The script from the raw rows to the daily table: the trip-level table, the print of the
  ranges, the \<open>date\<close> column, the aggregation.
\<close>

definition daily_zone_features ::
  "(nat \<Rightarrow> nat \<Rightarrow> int) \<Rightarrow> raw_trip list \<Rightarrow> error + daily list" where
  "daily_zone_features mem raw =
     (let rows = trip_level mem raw
      in case print_ranges rows of
           Inl e \<Rightarrow> Inl e
         | Inr printed \<Rightarrow>
             (case with_date rows of Inl e \<Rightarrow> Inl e | Inr dated \<Rightarrow> Inr (groupby_agg dated)))"

section \<open>The count as the spec words it\<close>

text \<open>
  The spec's reading of the count, for comparison with \<open>rolling\<close>: the number of events
  of the partition whose timestamp lies in the half-open interval from \<open>t - w\<close>
  (excluded) to \<open>t\<close> (included), where \<open>t\<close> is the timestamp of the event at index \<open>i\<close>.
\<close>

definition spec_window_count :: "int list \<Rightarrow> int \<Rightarrow> nat \<Rightarrow> int" where
  "spec_window_count t w i = int (length (filter (\<lambda>x. t ! i - w < x \<and> x \<le> t ! i) t))"

section \<open>Notions of the statements\<close>

text \<open>
  The order of the sorted table: by zone first, by pickup time among the rows of one
  zone.
\<close>

definition lex_le :: "'a trip_scheme \<Rightarrow> 'a trip_scheme \<Rightarrow> bool" where
  "lex_le a b \<longleftrightarrow>
     PULocationID a < PULocationID b
     \<or> (PULocationID a = PULocationID b \<and> pickup_datetime a \<le> pickup_datetime b)"

text \<open>The column that the loop leaves for a window: the counts of the zones, one zone after the other.\<close>

definition zone_counts :: "int list \<Rightarrow> int list \<Rightarrow> int \<Rightarrow> int list" where
  "zone_counts ts zs w =
     concat (map (\<lambda>v. rolling (slice ts (length (filter (\<lambda>x. x < v) zs))
                                        (length (filter (\<lambda>x. x \<le> v) zs))) w)
               (unique_values zs))"

section \<open>Wrap-around and binary search\<close>

lemma int64_id: "- 9223372036854775808 \<le> x \<Longrightarrow> x < 9223372036854775808 \<Longrightarrow> int64 x = x"
  by (simp add: int64_def)

lemma int32_id: "- 2147483648 \<le> x \<Longrightarrow> x < 2147483648 \<Longrightarrow> int32 x = x"
  by (simp add: int32_def)

lemma binsearch_left_bounds:
  "lo \<le> hi \<Longrightarrow> lo \<le> binsearch_left a key lo hi \<and> binsearch_left a key lo hi \<le> hi"
proof (induction a key lo hi rule: binsearch_left.induct)
  case (1 a key lo hi)
  show ?case
  proof (cases "lo < hi")
    case False
    with "1.prems" show ?thesis by (simp add: binsearch_left.simps)
  next
    case True
    define mid where "mid = lo + (hi - lo) div 2"
    have m: "lo \<le> mid" "mid < hi" using True by (auto simp: mid_def)
    show ?thesis
    proof (cases "a ! mid < key")
      case True
      have "mid + 1 \<le> binsearch_left a key (mid + 1) hi \<and> binsearch_left a key (mid + 1) hi \<le> hi"
        using "1.IH"(1) [OF \<open>lo < hi\<close> mid_def True] m by simp
      moreover have "binsearch_left a key lo hi = binsearch_left a key (mid + 1) hi"
        using \<open>lo < hi\<close> True by (subst binsearch_left.simps) (simp add: mid_def Let_def)
      ultimately show ?thesis using m by simp
    next
      case False
      have "lo \<le> binsearch_left a key lo mid \<and> binsearch_left a key lo mid \<le> mid"
        using "1.IH"(2) [OF \<open>lo < hi\<close> mid_def False] m by simp
      moreover have "binsearch_left a key lo hi = binsearch_left a key lo mid"
        using \<open>lo < hi\<close> False by (subst binsearch_left.simps) (simp add: mid_def Let_def)
      ultimately show ?thesis using m by simp
    qed
  qed
qed

lemma binsearch_left_sorted:
  assumes "sorted a" "lo \<le> hi" "hi \<le> length a"
    and "\<forall>j<lo. a ! j < key" and "\<forall>j. hi \<le> j \<and> j < length a \<longrightarrow> key \<le> a ! j"
  shows "(\<forall>j<binsearch_left a key lo hi. a ! j < key) \<and>
         (\<forall>j. binsearch_left a key lo hi \<le> j \<and> j < length a \<longrightarrow> key \<le> a ! j)"
  using assms
proof (induction a key lo hi rule: binsearch_left.induct)
  case (1 a key lo hi)
  show ?case
  proof (cases "lo < hi")
    case False
    with "1.prems" have "hi = lo" by simp
    with False "1.prems" show ?thesis by (simp add: binsearch_left.simps)
  next
    case True
    define mid where "mid = lo + (hi - lo) div 2"
    have m: "lo \<le> mid" "mid < hi" using True by (auto simp: mid_def)
    show ?thesis
    proof (cases "a ! mid < key")
      case lt: True
      have below: "\<forall>j<mid + 1. a ! j < key"
      proof (intro allI impI)
        fix j assume "j < mid + 1"
        then have "j \<le> mid" by simp
        moreover have "mid < length a" using m "1.prems" by simp
        ultimately have "a ! j \<le> a ! mid" using \<open>sorted a\<close> by (simp add: sorted_nth_mono)
        with lt show "a ! j < key" by simp
      qed
      have eq: "binsearch_left a key lo hi = binsearch_left a key (mid + 1) hi"
        using True lt by (subst binsearch_left.simps) (simp add: mid_def Let_def)
      show ?thesis unfolding eq
        using "1.IH"(1) [OF True mid_def lt \<open>sorted a\<close> _ \<open>hi \<le> length a\<close> below "1.prems"(5)] m
        by simp
    next
      case ge: False
      have above: "\<forall>j. mid \<le> j \<and> j < length a \<longrightarrow> key \<le> a ! j"
      proof (intro allI impI)
        fix j assume "mid \<le> j \<and> j < length a"
        then have "a ! mid \<le> a ! j" using \<open>sorted a\<close> by (simp add: sorted_nth_mono)
        with ge show "key \<le> a ! j" by simp
      qed
      have eq: "binsearch_left a key lo hi = binsearch_left a key lo mid"
        using True ge by (subst binsearch_left.simps) (simp add: mid_def Let_def)
      have "mid \<le> length a" using m "1.prems" by simp
      show ?thesis unfolding eq
        using "1.IH"(2) [OF True mid_def ge \<open>sorted a\<close> _ \<open>mid \<le> length a\<close> "1.prems"(4) above] m
        by simp
    qed
  qed
qed

lemma lower_bound_le_length: "lower_bound a key \<le> length a"
  using binsearch_left_bounds [of 0 "length a" a key] by (simp add: lower_bound_def)

lemma lower_bound_sorted:
  assumes "sorted a"
  shows "\<forall>j<lower_bound a key. a ! j < key"
    and "\<forall>j. lower_bound a key \<le> j \<and> j < length a \<longrightarrow> key \<le> a ! j"
  using binsearch_left_sorted [of a 0 "length a" key] assms by (simp_all add: lower_bound_def)

lemma lower_bound_le_index:
  assumes "sorted a" "i < length a" "key \<le> a ! i"
  shows "lower_bound a key \<le> i"
proof (rule ccontr)
  assume "\<not> lower_bound a key \<le> i"
  then have "i < lower_bound a key" by simp
  then have "a ! i < key" using lower_bound_sorted(1) [OF assms(1)] by blast
  with assms(3) show False by simp
qed

lemma lower_bound_Least:
  assumes "sorted a" "i < length a" "key \<le> a ! i"
  shows "lower_bound a key = (LEAST j. j < length a \<and> key \<le> a ! j)"
proof (rule Least_equality [symmetric])
  have "lower_bound a key \<le> i" using assms by (rule lower_bound_le_index)
  then have "lower_bound a key < length a" using assms(2) by simp
  then show "lower_bound a key < length a \<and> key \<le> a ! lower_bound a key"
    using lower_bound_sorted(2) [OF assms(1), of key] by simp
next
  fix j assume "j < length a \<and> key \<le> a ! j"
  then show "lower_bound a key \<le> j" using assms(1) lower_bound_le_index by blast
qed

lemma earlier_in_window:
  assumes "sorted a" "i < length a" "key \<le> a ! i"
  shows "{j. j < i \<and> key \<le> a ! j} = {lower_bound a key..<i}"
proof (intro set_eqI iffI)
  fix j assume "j \<in> {j. j < i \<and> key \<le> a ! j}"
  then have "j < i" "key \<le> a ! j" by simp_all
  then have "lower_bound a key \<le> j" using assms lower_bound_le_index [of a j key] by simp
  with \<open>j < i\<close> show "j \<in> {lower_bound a key..<i}" by simp
next
  fix j assume "j \<in> {lower_bound a key..<i}"
  then have "lower_bound a key \<le> j" "j < i" by simp_all
  then have "key \<le> a ! j" using lower_bound_sorted(2) [OF assms(1), of key] assms(2) by simp
  with \<open>j < i\<close> show "j \<in> {j. j < i \<and> key \<le> a ! j}" by simp
qed

lemma lower_bound_mono:
  assumes "sorted a" "k1 \<le> k2"
  shows "lower_bound a k1 \<le> lower_bound a k2"
proof (rule ccontr)
  assume "\<not> lower_bound a k1 \<le> lower_bound a k2"
  then have lt: "lower_bound a k2 < lower_bound a k1" by simp
  then have "a ! lower_bound a k2 < k1" using lower_bound_sorted(1) [OF assms(1)] by blast
  moreover have "lower_bound a k2 < length a"
    using lt lower_bound_le_length [of a k1] by simp
  then have "k2 \<le> a ! lower_bound a k2" using lower_bound_sorted(2) [OF assms(1), of k2] by simp
  ultimately show False using assms(2) by simp
qed

lemma length_rolling: "length (rolling t w) = length t"
  by (simp add: rolling_def arange_def searchsorted_left_def sub_scalar_def)

lemma rolling_nth:
  assumes "i < length t"
  shows "rolling t w ! i = int32 (int i - int (lower_bound t (int64 (t ! i - w))))"
  using assms by (simp add: rolling_def arange_def searchsorted_left_def sub_scalar_def)

lemma rolling_nth_exact:
  assumes "i < length t" "length t < 2147483648"
    and "- 9223372036854775808 \<le> t ! i - w" "t ! i - w < 9223372036854775808"
  shows "rolling t w ! i = int i - int (lower_bound t (t ! i - w))"
proof -
  have "lower_bound t (t ! i - w) \<le> length t" by (rule lower_bound_le_length)
  then have "- 2147483648 \<le> int i - int (lower_bound t (t ! i - w))"
    and "int i - int (lower_bound t (t ! i - w)) < 2147483648"
    using assms(1,2) by simp_all
  then show ?thesis using assms by (simp add: rolling_nth int64_id int32_id)
qed

section \<open>Claims about the rolling window counter\<close>

text \<open>
  Claim C4. A zone has exactly four events, at 00:00, 00:30, 01:00 and 02:00 of one day
  \<open>d\<close> (counted in days since the epoch; the bounds on \<open>d\<close> say that its midnight is an
  \<open>int64\<close> number of nanoseconds). The one-hour count stored for the event at 01:00 is 2
  and the one stored for the event at 02:00 is 1.
\<close>

theorem rolling_four_events:
  assumes "- 106751 \<le> d" "d \<le> 106751"
  shows "rolling [d * ns_24h, d * ns_24h + 1800000000000, d * ns_24h + 3600000000000,
                  d * ns_24h + 7200000000000] ns_1h ! 2 = 2
       \<and> rolling [d * ns_24h, d * ns_24h + 1800000000000, d * ns_24h + 3600000000000,
                  d * ns_24h + 7200000000000] ns_1h ! 3 = 1"
proof -
  define m where "m = d * 86400000000000"
  have lo: "- 9223286400000000000 \<le> m" and hi: "m \<le> 9223286400000000000"
    using assms by (simp_all add: m_def)
  have k2: "int64 m = m"
    using lo hi by (simp add: int64_id)
  have k3: "int64 (3600000000000 + m) = 3600000000000 + m"
    using lo hi by (simp add: int64_id)
  have s2: "lower_bound [m, m + 1800000000000, m + 3600000000000, m + 7200000000000] m = 0"
    by (simp add: lower_bound_def binsearch_left.simps)
  have s3: "lower_bound [m, m + 1800000000000, m + 3600000000000, m + 7200000000000]
              (3600000000000 + m) = 2"
    by (simp add: lower_bound_def binsearch_left.simps)
  show ?thesis
    unfolding ns_24h_def ns_1h_def m_def [symmetric]
    by (simp add: rolling_nth k2 k3 s2 s3 int32_def)
qed

theorem rolling_four_events_witness:
  "- 106751 \<le> (20089::int) \<and> (20089::int) \<le> 106751
   \<and> rolling [1735689600000000000, 1735691400000000000, 1735693200000000000,
              1735696800000000000] ns_1h ! 2 = 2
   \<and> rolling [1735689600000000000, 1735691400000000000, 1735693200000000000,
              1735696800000000000] ns_1h ! 3 = 1"
  using rolling_four_events [of 20089] by (simp add: ns_24h_def)

text \<open>
  Claim C1, evaluated on the code: a zone with a single event (here at 2025-01-01 00:00)
  gets the count 0 for each of the three windows, not 1.
\<close>

theorem single_event_counts_zero:
  "rolling [1735689600000000000] ns_1h = [0]
   \<and> rolling [1735689600000000000] ns_6h = [0]
   \<and> rolling [1735689600000000000] ns_24h = [0]"
  by code_simp

text \<open>
  Claim C2, evaluated on the code: for a partition of one event the stored count is 0,
  while the number of events with a timestamp in the half-open interval from \<open>t - w\<close>
  (excluded) to \<open>t\<close> (included), the event itself among them, is 1. The subtraction leaves
  the event itself out, against the comment of the loop body.
\<close>

theorem rolling_not_inclusive_count:
  "sorted [1735689600000000000 :: int]
   \<and> rolling [1735689600000000000] ns_1h ! 0 = 0
   \<and> spec_window_count [1735689600000000000] ns_1h 0 = 1"
  by (simp add: spec_window_count_def ns_1h_def rolling_nth lower_bound_def
      binsearch_left.simps int64_def int32_def)

text \<open>
  The arithmetic of the count. In a partition with ascending timestamps and fewer than
  \<open>2^31\<close> events, for a window \<open>w \<ge> 0\<close> and the event at local index \<open>i\<close> whose timestamp \<open>t\<close>
  is an \<open>int64\<close> with \<open>t - w\<close> not below the smallest \<open>int64\<close>, the stored count is \<open>i\<close> minus
  the smallest local index \<open>j\<close> with \<open>timestamp[j] \<ge> t - w\<close>.
\<close>

lemma rolling_is_index_minus_lower_bound:
  assumes "sorted t" "i < length t" "length t < 2147483648" "0 \<le> w"
    and "- 9223372036854775808 + w \<le> t ! i" "t ! i < 9223372036854775808"
  shows "rolling t w ! i = int i - int (LEAST j. j < length t \<and> t ! i - w \<le> t ! j)"
proof -
  have key: "t ! i - w \<le> t ! i" "- 9223372036854775808 \<le> t ! i - w"
    "t ! i - w < 9223372036854775808"
    using assms(4-6) by linarith+
  have "rolling t w ! i = int i - int (lower_bound t (t ! i - w))"
    using assms(2,3) key(2,3) by (rule rolling_nth_exact)
  moreover have "lower_bound t (t ! i - w) = (LEAST j. j < length t \<and> t ! i - w \<le> t ! j)"
    using assms(1,2) key(1) by (rule lower_bound_Least)
  ultimately show ?thesis by simp
qed

text \<open>
  Claim C10, amended. In a partition with ascending timestamps and fewer than \<open>2^31\<close>
  events, for a window \<open>w \<ge> 0\<close> and the event at local index \<open>i\<close> whose timestamp \<open>t\<close> is an
  \<open>int64\<close> with \<open>t - w\<close> not below the smallest \<open>int64\<close>, the stored count is the number of
  events at an earlier index \<open>j < i\<close> with \<open>timestamp[j] \<ge> t - w\<close>: the event itself is not
  counted and the left boundary is. So the count is at most \<open>i\<close>, and it is 0 for the first
  event of the partition.
\<close>

theorem rolling_counts_earlier_events:
  assumes "sorted t" "i < length t" "length t < 2147483648" "0 \<le> w"
    and "- 9223372036854775808 + w \<le> t ! i" "t ! i < 9223372036854775808"
  shows "rolling t w ! i = int (card {j. j < i \<and> t ! i - w \<le> t ! j})
       \<and> rolling t w ! i \<le> int i
       \<and> (i = 0 \<longrightarrow> rolling t w ! i = 0)"
proof -
  have key: "t ! i - w \<le> t ! i" "- 9223372036854775808 \<le> t ! i - w"
    "t ! i - w < 9223372036854775808"
    using assms(4-6) by linarith+
  have r: "rolling t w ! i = int i - int (lower_bound t (t ! i - w))"
    using assms(2,3) key(2,3) by (rule rolling_nth_exact)
  have le: "lower_bound t (t ! i - w) \<le> i"
    using assms(1,2) key(1) by (rule lower_bound_le_index)
  have "{j. j < i \<and> t ! i - w \<le> t ! j} = {lower_bound t (t ! i - w)..<i}"
    using assms(1,2) key(1) by (rule earlier_in_window)
  then have "card {j. j < i \<and> t ! i - w \<le> t ! j} = i - lower_bound t (t ! i - w)"
    by simp
  then show ?thesis using r le by auto
qed

theorem rolling_counts_earlier_events_witness:
  "sorted [0, 1800000000000, 7200000000000 :: int]
   \<and> rolling [0, 1800000000000, 7200000000000] ns_1h ! 1
       = int (card {j. j < 1 \<and> 1800000000000 - ns_1h \<le> [0, 1800000000000, 7200000000000 :: int] ! j})
   \<and> rolling [0, 1800000000000, 7200000000000] ns_1h ! 1 \<le> 1"
  using rolling_counts_earlier_events [of "[0, 1800000000000, 7200000000000]" 1 ns_1h]
  by (simp add: ns_1h_def)

text \<open>
  Claim C10 as stated fails where \<open>t - w\<close> wraps around: the single event of a partition at
  the smallest timestamp (1677-09-21 00:12:43.145224193) gets the one-hour count \<open>-1\<close>.
\<close>

theorem rolling_first_event_wraps:
  "sorted [- 9223372036854775807 :: int]
   \<and> rolling [- 9223372036854775807] ns_1h ! 0 = - 1"
  by (simp add: ns_1h_def rolling_nth lower_bound_def binsearch_left.simps int64_def int32_def)

section \<open>The sort and the bounds of the zones\<close>

lemma insort_key_lex:
  assumes "sorted_wrt lex_le L" "\<forall>y\<in>set L. pickup_datetime x \<le> pickup_datetime y"
  shows "sorted_wrt lex_le (insort_key PULocationID x L)"
  using assms
proof (induction L)
  case Nil
  then show ?case by simp
next
  case (Cons y L)
  show ?case
  proof (cases "PULocationID x \<le> PULocationID y")
    case True
    have "lex_le x y" using True Cons.prems(2) by (auto simp: lex_le_def)
    moreover have "\<forall>z\<in>set L. lex_le x z"
    proof
      fix z assume z: "z \<in> set L"
      then have "lex_le y z" using Cons.prems(1) by simp
      then show "lex_le x z" using True Cons.prems(2) z by (auto simp: lex_le_def)
    qed
    ultimately show ?thesis using True Cons.prems(1) by simp
  next
    case False
    have "sorted_wrt lex_le (insort_key PULocationID x L)"
      using Cons by simp
    moreover have "\<forall>z\<in>set (insort_key PULocationID x L). lex_le y z"
      using Cons.prems(1) False by (auto simp: set_insort_key lex_le_def)
    ultimately show ?thesis using False by simp
  qed
qed

lemma sort_key_lex:
  "sorted (map pickup_datetime ys) \<Longrightarrow> sorted_wrt lex_le (sort_key PULocationID ys)"
proof (induction ys)
  case Nil
  then show ?case by simp
next
  case (Cons y ys)
  then have "sorted_wrt lex_le (sort_key PULocationID ys)" by simp
  moreover have "\<forall>z\<in>set (sort_key PULocationID ys). pickup_datetime y \<le> pickup_datetime z"
    using Cons.prems by simp
  ultimately show ?case by (simp add: insort_key_lex)
qed

lemma sort_values_lex: "sorted_wrt lex_le (sort_values xs)"
  unfolding sort_values_def by (rule sort_key_lex) simp

lemma sort_values_mset: "mset (sort_values xs) = mset xs"
  by (simp add: sort_values_def)

lemma sort_values_stable:
  "filter (\<lambda>e. PULocationID e = z \<and> pickup_datetime e = t) (sort_values xs)
   = filter (\<lambda>e. PULocationID e = z \<and> pickup_datetime e = t) xs"
proof -
  let ?ys = "sort_key pickup_datetime xs"
  have "filter (\<lambda>e. PULocationID e = z \<and> pickup_datetime e = t) (sort_values xs)
      = filter (\<lambda>e. pickup_datetime e = t) (filter (\<lambda>e. PULocationID e = z) (sort_key PULocationID ?ys))"
    by (simp add: sort_values_def conj_commute)
  also have "\<dots> = filter (\<lambda>e. pickup_datetime e = t) (filter (\<lambda>e. PULocationID e = z) ?ys)"
    by (simp only: sort_key_stable)
  also have "\<dots> = filter (\<lambda>e. PULocationID e = z) (filter (\<lambda>e. pickup_datetime e = t) ?ys)"
    by (simp add: conj_commute)
  also have "\<dots> = filter (\<lambda>e. PULocationID e = z) (filter (\<lambda>e. pickup_datetime e = t) xs)"
    by (simp only: sort_key_stable)
  finally show ?thesis by (simp add: conj_commute)
qed

lemma sort_values_zone_sorted: "sorted (map PULocationID (sort_values xs))"
  by (simp add: sort_values_def)

lemma first_index_sorted:
  "sorted zs \<Longrightarrow> v \<in> set zs \<Longrightarrow> first_index zs v = length (filter (\<lambda>x. x < v) zs)"
proof (induction zs)
  case Nil
  then show ?case by simp
next
  case (Cons x xs)
  show ?case
  proof (cases "x = v")
    case True
    have "filter (\<lambda>y. y < v) xs = []"
      using Cons.prems(1) True by (auto simp: filter_empty_conv)
    then show ?thesis using True by simp
  next
    case False
    then have v: "v \<in> set xs" using Cons.prems(2) by simp
    then have "x \<le> v" using Cons.prems(1) by simp
    then have "x < v" using False by simp
    moreover have "first_index xs v = length (filter (\<lambda>x. x < v) xs)"
      using Cons.IH Cons.prems(1) v by simp
    ultimately show ?thesis using False by simp
  qed
qed

lemma prefix_filter_sorted:
  assumes "\<And>x y. x \<le> y \<Longrightarrow> P y \<Longrightarrow> P x"
  shows "sorted zs \<Longrightarrow> i < length zs \<Longrightarrow> (i < length (filter P zs)) = P (zs ! i)"
proof (induction zs arbitrary: i)
  case Nil
  then show ?case by simp
next
  case (Cons x xs)
  show ?case
  proof (cases "P x")
    case True
    show ?thesis
    proof (cases i)
      case 0
      then show ?thesis using True by simp
    next
      case (Suc i')
      then show ?thesis using True Cons by simp
    qed
  next
    case False
    have no: "\<not> P y" if "y \<in> set (x # xs)" for y
    proof
      assume "P y"
      moreover have "x \<le> y" using that Cons.prems(1) by auto
      ultimately have "P x" using assms by blast
      with False show False by simp
    qed
    then have "filter P (x # xs) = []" by (simp add: filter_empty_conv)
    moreover have "\<not> P ((x # xs) ! i)" using no Cons.prems(2) nth_mem by blast
    ultimately show ?thesis by simp
  qed
qed

lemma zone_at_index:
  assumes "sorted zs" "i < length zs"
  shows "(length (filter (\<lambda>x. x < v) zs) \<le> i \<and> i < length (filter (\<lambda>x. x \<le> v) zs)) = (zs ! i = v)"
proof -
  have "(i < length (filter (\<lambda>x. x < v) zs)) = (zs ! i < v)"
    using assms by (intro prefix_filter_sorted) auto
  moreover have "(i < length (filter (\<lambda>x. x \<le> v) zs)) = (zs ! i \<le> v)"
    using assms by (intro prefix_filter_sorted) auto
  ultimately show ?thesis by auto
qed

lemma ends_are_counts:
  assumes "sorted (u # us)" "distinct (u # us)" "\<forall>x\<in>set zs. x \<le> u \<or> x \<in> set us"
  shows "map (\<lambda>v. length (filter (\<lambda>x. x < v) zs)) us @ [length zs]
       = map (\<lambda>v. length (filter (\<lambda>x. x \<le> v) zs)) (u # us)"
  using assms
proof (induction us arbitrary: u)
  case Nil
  then have "filter (\<lambda>x. x \<le> u) zs = zs" by (simp add: filter_id_conv)
  then show ?case by simp
next
  case (Cons u' us)
  have lt: "u < u'" using Cons.prems(1,2) by (simp add: order_less_le)
  have "\<forall>x\<in>set zs. x \<le> u' \<or> x \<in> set us"
    using Cons.prems(3) lt by auto
  then have ih: "map (\<lambda>v. length (filter (\<lambda>x. x < v) zs)) us @ [length zs]
       = map (\<lambda>v. length (filter (\<lambda>x. x \<le> v) zs)) (u' # us)"
    using Cons.IH [of u'] Cons.prems(1,2) by simp
  have "filter (\<lambda>x. x < u') zs = filter (\<lambda>x. x \<le> u) zs"
  proof (rule filter_cong [OF refl])
    fix x assume "x \<in> set zs"
    then have "x \<le> u \<or> x \<in> set (u' # us)" using Cons.prems(3) by simp
    moreover have "u' \<le> y" if "y \<in> set (u' # us)" for y
      using that Cons.prems(1) by auto
    ultimately show "(x < u') = (x \<le> u)" using lt by force
  qed
  then show ?case using ih by simp
qed

lemma zone_bounds:
  assumes "sorted zs"
  shows "zip (zone_starts zs) (zone_ends zs)
       = map (\<lambda>v. (length (filter (\<lambda>x. x < v) zs), length (filter (\<lambda>x. x \<le> v) zs)))
           (unique_values zs)"
proof (cases "unique_values zs")
  case Nil
  then show ?thesis by (simp add: zone_starts_def)
next
  case (Cons u us)
  have set_eq: "set (u # us) = set zs"
    using Cons [symmetric] by (simp add: unique_values_def)
  have sd: "sorted (u # us)" "distinct (u # us)"
    using Cons [symmetric] by (simp_all add: unique_values_def)
  have starts: "zone_starts zs = map (\<lambda>v. length (filter (\<lambda>x. x < v) zs)) (u # us)"
    unfolding zone_starts_def Cons
  proof (rule map_cong [OF refl])
    fix x assume "x \<in> set (u # us)"
    then have "x \<in> set zs" unfolding set_eq .
    then show "first_index zs x = length (filter (\<lambda>y. y < x) zs)"
      using assms by (rule first_index_sorted [rotated])
  qed
  have "\<forall>x\<in>set zs. x \<le> u \<or> x \<in> set us" using set_eq by auto
  then have "zone_ends zs = map (\<lambda>v. length (filter (\<lambda>x. x \<le> v) zs)) (u # us)"
    unfolding zone_ends_def starts using ends_are_counts [OF sd] by simp
  then show ?thesis using starts Cons by (simp add: zip_map_map zip_same_conv_map)
qed

lemma count_lt_le: "length (filter (\<lambda>x. x < v) zs) \<le> length (filter (\<lambda>x. x \<le> (v::'a::linorder)) zs)"
proof -
  have "filter (\<lambda>x. x < v) zs = filter (\<lambda>x. x < v) (filter (\<lambda>x. x \<le> v) zs)"
    by (simp add: conj_commute) (rule filter_cong, auto)
  then show ?thesis by (metis length_filter_le)
qed

lemma ranges_concat:
  assumes "sorted (u # us)" "distinct (u # us)" "\<forall>x\<in>set zs. x \<le> u \<or> x \<in> set us"
  shows "concat (map (\<lambda>v. [length (filter (\<lambda>x. x < v) zs)..<length (filter (\<lambda>x. x \<le> v) zs)]) (u # us))
       = [length (filter (\<lambda>x. x < u) zs)..<length zs]"
  using assms
proof (induction us arbitrary: u)
  case Nil
  then have "filter (\<lambda>x. x \<le> u) zs = zs" by (simp add: filter_id_conv)
  then show ?case by simp
next
  case (Cons u' us)
  have lt: "u < u'" using Cons.prems(1,2) by (simp add: order_less_le)
  have "\<forall>x\<in>set zs. x \<le> u' \<or> x \<in> set us"
    using Cons.prems(3) lt by auto
  then have ih: "concat (map (\<lambda>v. [length (filter (\<lambda>x. x < v) zs)..<length (filter (\<lambda>x. x \<le> v) zs)]) (u' # us))
       = [length (filter (\<lambda>x. x < u') zs)..<length zs]"
    using Cons.IH [of u'] Cons.prems(1,2) by simp
  have eq: "length (filter (\<lambda>x. x < u') zs) = length (filter (\<lambda>x. x \<le> u) zs)"
    using ends_are_counts [OF Cons.prems] by simp
  have le1: "length (filter (\<lambda>x. x < u) zs) \<le> length (filter (\<lambda>x. x \<le> u) zs)"
    by (rule count_lt_le)
  have le2: "length (filter (\<lambda>x. x \<le> u) zs) \<le> length zs" by simp
  have "[length (filter (\<lambda>x. x < u) zs)..<length zs]
      = [length (filter (\<lambda>x. x < u) zs)..<length (filter (\<lambda>x. x \<le> u) zs)]
        @ [length (filter (\<lambda>x. x \<le> u) zs)..<length zs]"
    using le1 le2 by (metis le_Suc_ex upt_add_eq_append)
  then show ?case using ih eq by simp
qed

lemma zone_ranges_cover:
  assumes "sorted zs"
  shows "concat (map (\<lambda>(s, e). [s..<e]) (zip (zone_starts zs) (zone_ends zs))) = [0..<length zs]"
proof (cases "unique_values zs")
  case Nil
  then have "set zs = {}" by (metis empty_set set_remdups set_sort unique_values_def)
  then show ?thesis using Nil by (simp add: zone_starts_def)
next
  case (Cons u us)
  have set_eq: "set (u # us) = set zs"
    using Cons [symmetric] by (simp add: unique_values_def)
  have sd: "sorted (u # us)" "distinct (u # us)"
    using Cons [symmetric] by (simp_all add: unique_values_def)
  have cov: "\<forall>x\<in>set zs. x \<le> u \<or> x \<in> set us" using set_eq by auto
  have "\<forall>x\<in>set zs. u \<le> x" using sd(1) set_eq by auto
  then have "filter (\<lambda>x. x < u) zs = []" by (auto simp: filter_empty_conv)
  then have zero: "length (filter (\<lambda>x. x < u) zs) = 0" by simp
  have "concat (map (\<lambda>(s, e). [s..<e]) (zip (zone_starts zs) (zone_ends zs)))
      = concat (map (\<lambda>v. [length (filter (\<lambda>x. x < v) zs)..<length (filter (\<lambda>x. x \<le> v) zs)]) (u # us))"
    by (simp add: zone_bounds [OF assms] Cons comp_def)
  also have "\<dots> = [length (filter (\<lambda>x. x < u) zs)..<length zs]"
    using sd cov by (rule ranges_concat)
  finally show ?thesis using zero by simp
qed

lemma length_zone_starts: "length (zone_starts zs) = length (unique_values zs)"
  by (simp add: zone_starts_def)

lemma length_zone_ends: "length (zone_ends zs) = max 1 (length (unique_values zs))"
  by (cases "unique_values zs") (simp_all add: zone_ends_def zone_starts_def)

lemma zone_range_is_zone:
  assumes "sorted zs" "k < length (unique_values zs)" "i < length zs"
  shows "(zone_starts zs ! k \<le> i \<and> i < zone_ends zs ! k) = (zs ! i = unique_values zs ! k)"
proof -
  have k: "k < length (zip (zone_starts zs) (zone_ends zs))"
    using assms(2) by (simp add: length_zone_starts length_zone_ends)
  have "zip (zone_starts zs) (zone_ends zs) ! k = (zone_starts zs ! k, zone_ends zs ! k)"
    using k by simp
  moreover have "zip (zone_starts zs) (zone_ends zs) ! k
      = (length (filter (\<lambda>x. x < unique_values zs ! k) zs),
         length (filter (\<lambda>x. x \<le> unique_values zs ! k) zs))"
    using assms(2) by (simp add: zone_bounds [OF assms(1)])
  ultimately have "zone_starts zs ! k = length (filter (\<lambda>x. x < unique_values zs ! k) zs)"
    and "zone_ends zs ! k = length (filter (\<lambda>x. x \<le> unique_values zs ! k) zs)"
    by simp_all
  then show ?thesis using zone_at_index [OF assms(1,3)] by simp
qed

section \<open>The loop over the zones, as a whole\<close>

lemma length_slice: "e \<le> length xs \<Longrightarrow> length (slice xs s e) = e - s"
  by (simp add: slice_def)

lemma nth_slice: "e \<le> length xs \<Longrightarrow> i < e - s \<Longrightarrow> slice xs s e ! i = xs ! (s + i)"
  by (simp add: slice_def)

lemma length_assign_slice:
  "s + length v \<le> length r \<Longrightarrow> length (assign_slice r s v) = length r"
  by (simp add: assign_slice_def)

lemma fold_assign_ranges:
  assumes "sorted (u # us)" "distinct (u # us)" "\<forall>x\<in>set zs. x \<le> u \<or> x \<in> set us"
    and "length r = length zs"
    and "\<And>s e. e \<le> length zs \<Longrightarrow> length (f (s, e)) = e - s"
  shows "fold (\<lambda>b r. assign_slice r (fst b) (f b))
           (map (\<lambda>v. (length (filter (\<lambda>x. x < v) zs), length (filter (\<lambda>x. x \<le> v) zs))) (u # us)) r
       = take (length (filter (\<lambda>x. x < u) zs)) r
         @ concat (map (\<lambda>v. f (length (filter (\<lambda>x. x < v) zs), length (filter (\<lambda>x. x \<le> v) zs))) (u # us))"
  using assms(1-4)
proof (induction us arbitrary: u r)
  case Nil
  then have all: "length (filter (\<lambda>x. x \<le> u) zs) = length zs" by (simp add: filter_id_conv)
  have le1: "length (filter (\<lambda>x. x < u) zs) \<le> length zs" by simp
  have "length (f (length (filter (\<lambda>x. x < u) zs), length zs)) = length zs - length (filter (\<lambda>x. x < u) zs)"
    by (rule assms(5)) simp
  then show ?case using all le1 Nil.prems(4) by (simp add: assign_slice_def)
next
  case (Cons u' us)
  let ?lt = "\<lambda>v. length (filter (\<lambda>x. x < v) zs)"
  let ?le = "\<lambda>v. length (filter (\<lambda>x. x \<le> v) zs)"
  have lt: "u < u'" using Cons.prems(1,2) by (simp add: order_less_le)
  have cov: "\<forall>x\<in>set zs. x \<le> u' \<or> x \<in> set us"
    using Cons.prems(3) lt by auto
  have eq: "?lt u' = ?le u"
    using ends_are_counts [OF Cons.prems(1-3)] by simp
  have le1: "?lt u \<le> ?le u" by (rule count_lt_le)
  have le2: "?le u \<le> length zs" by simp
  have lf: "length (f (?lt u, ?le u)) = ?le u - ?lt u"
    by (rule assms(5)) simp
  define r' where "r' = assign_slice r (?lt u) (f (?lt u, ?le u))"
  have r': "r' = take (?lt u) r @ f (?lt u, ?le u) @ drop (?le u) r"
    using lf le1 by (simp add: r'_def assign_slice_def)
  have len': "length r' = length zs"
    using lf le1 le2 Cons.prems(4) by (simp add: r')
  have tk: "take (?le u) r' = take (?lt u) r @ f (?lt u, ?le u)"
    using lf le1 le2 Cons.prems(4) by (simp add: r')
  have "fold (\<lambda>b r. assign_slice r (fst b) (f b)) (map (\<lambda>v. (?lt v, ?le v)) (u' # us)) r'
      = take (?lt u') r' @ concat (map (\<lambda>v. f (?lt v, ?le v)) (u' # us))"
    using Cons.IH [of u' r'] Cons.prems(1,2) cov len' by simp
  then show ?case using tk eq by (simp add: r'_def)
qed

lemma zone_body_columns:
  "r1h (fold (zone_body ts) bs c)
     = fold (\<lambda>b r. assign_slice r (fst b) (rolling (slice ts (fst b) (snd b)) ns_1h)) bs (r1h c)
   \<and> r6h (fold (zone_body ts) bs c)
     = fold (\<lambda>b r. assign_slice r (fst b) (rolling (slice ts (fst b) (snd b)) ns_6h)) bs (r6h c)
   \<and> r24h (fold (zone_body ts) bs c)
     = fold (\<lambda>b r. assign_slice r (fst b) (rolling (slice ts (fst b) (snd b)) ns_24h)) bs (r24h c)"
  by (induction bs arbitrary: c) (simp_all add: zone_body_def Let_def)

lemma fold_rolling_column:
  assumes "sorted zs" "length ts = length zs" "length r = length zs"
  shows "fold (\<lambda>b r. assign_slice r (fst b) (rolling (slice ts (fst b) (snd b)) w))
           (zip (zone_starts zs) (zone_ends zs)) r = zone_counts ts zs w"
proof (cases "unique_values zs")
  case Nil
  then have "set zs = {}" by (metis empty_set set_remdups set_sort unique_values_def)
  then show ?thesis using Nil assms(3) by (simp add: zone_starts_def zone_counts_def)
next
  case (Cons u us)
  have set_eq: "set (u # us) = set zs"
    using Cons [symmetric] by (simp add: unique_values_def)
  have sd: "sorted (u # us)" "distinct (u # us)"
    using Cons [symmetric] by (simp_all add: unique_values_def)
  have cov: "\<forall>x\<in>set zs. x \<le> u \<or> x \<in> set us" using set_eq by auto
  have "\<forall>x\<in>set zs. u \<le> x" using sd(1) set_eq by auto
  then have "filter (\<lambda>x. x < u) zs = []" by (auto simp: filter_empty_conv)
  then have zero: "length (filter (\<lambda>x. x < u) zs) = 0" by simp
  have lf: "\<And>s e. e \<le> length zs \<Longrightarrow> length (rolling (slice ts (fst (s, e)) (snd (s, e))) w) = e - s"
    using assms(2) by (simp add: length_rolling length_slice)
  show ?thesis
    unfolding zone_bounds [OF assms(1)] Cons zone_counts_def
    using fold_assign_ranges [OF sd cov assms(3), of "\<lambda>b. rolling (slice ts (fst b) (snd b)) w", OF lf] zero
    by simp
qed

lemma zone_loop_columns:
  assumes "sorted zs" "length ts = length zs"
    and "length (r1h c) = length zs" "length (r6h c) = length zs" "length (r24h c) = length zs"
  shows "r1h (zone_loop ts zs c) = zone_counts ts zs ns_1h"
    and "r6h (zone_loop ts zs c) = zone_counts ts zs ns_6h"
    and "r24h (zone_loop ts zs c) = zone_counts ts zs ns_24h"
  using assms zone_body_columns [of ts "zip (zone_starts zs) (zone_ends zs)" c]
  by (simp_all add: zone_loop_def fold_rolling_column)

section \<open>Claims about the entity partitioner\<close>

text \<open>
  Claim C6. For every input table, whatever further columns its rows carry:
  \<^item> the sorted table holds the rows of the input, each as often as the input does;
  \<^item> it is ascending by zone, and by pickup time among the rows of one zone;
  \<^item> rows with equal zone and pickup time keep their input order;
  \<^item> the index ranges from \<open>_zone_starts\<close> to \<open>_zone_ends\<close>, concatenated, are the indices
    \<open>0, ..., n - 1\<close> of the sorted table, each exactly once, so the ranges are pairwise
    disjoint and cover the table;
  \<^item> there is one range for each distinct zone, and the \<open>k\<close>-th range holds exactly
    the indices of the rows of the \<open>k\<close>-th zone.
\<close>

theorem entity_partitioner:
  fixes xs :: "'a trip_scheme list"
  shows "mset (sort_values xs) = mset xs
    \<and> sorted_wrt lex_le (sort_values xs)
    \<and> (\<forall>z t. filter (\<lambda>e. PULocationID e = z \<and> pickup_datetime e = t) (sort_values xs)
             = filter (\<lambda>e. PULocationID e = z \<and> pickup_datetime e = t) xs)
    \<and> concat (map (\<lambda>(s, e). [s..<e])
         (zip (zone_starts (map PULocationID (sort_values xs)))
              (zone_ends (map PULocationID (sort_values xs))))) = [0..<length xs]
    \<and> length (zone_starts (map PULocationID (sort_values xs)))
         = length (unique_values (map PULocationID (sort_values xs)))
    \<and> distinct (unique_values (map PULocationID (sort_values xs)))
    \<and> (\<forall>k<length (unique_values (map PULocationID (sort_values xs))). \<forall>i<length xs.
          (zone_starts (map PULocationID (sort_values xs)) ! k \<le> i
           \<and> i < zone_ends (map PULocationID (sort_values xs)) ! k)
          = (PULocationID (sort_values xs ! i)
             = unique_values (map PULocationID (sort_values xs)) ! k))"
proof -
  let ?zs = "map PULocationID (sort_values xs)"
  have len: "length (sort_values xs) = length xs" by (simp add: sort_values_def)
  have srt: "sorted ?zs" by (rule sort_values_zone_sorted)
  have "concat (map (\<lambda>(s, e). [s..<e]) (zip (zone_starts ?zs) (zone_ends ?zs))) = [0..<length xs]"
    using zone_ranges_cover [OF srt] len by simp
  moreover have "\<forall>k<length (unique_values ?zs). \<forall>i<length xs.
      (zone_starts ?zs ! k \<le> i \<and> i < zone_ends ?zs ! k)
      = (PULocationID (sort_values xs ! i) = unique_values ?zs ! k)"
  proof (intro allI impI)
    fix k i assume "k < length (unique_values ?zs)" "i < length xs"
    then show "(zone_starts ?zs ! k \<le> i \<and> i < zone_ends ?zs ! k)
      = (PULocationID (sort_values xs ! i) = unique_values ?zs ! k)"
      using zone_range_is_zone [OF srt, of k i] len by simp
  qed
  moreover have "distinct (unique_values ?zs)" by (simp add: unique_values_def)
  ultimately show ?thesis
    using sort_values_mset [of xs] sort_values_lex [of xs] sort_values_stable [of _ _ xs]
      length_zone_starts [of ?zs]
    by blast
qed

theorem entity_partitioner_witness:
  "(1::nat) < length (unique_values (map PULocationID (sort_values
      [\<lparr>pickup_datetime = 5, PULocationID = 2\<rparr>, \<lparr>pickup_datetime = 3, PULocationID = 1\<rparr>,
       \<lparr>pickup_datetime = 4, PULocationID = 2\<rparr>])))
   \<and> (2::nat) < length [\<lparr>pickup_datetime = 5, PULocationID = 2\<rparr>,
       \<lparr>pickup_datetime = 3, PULocationID = 1\<rparr>, \<lparr>pickup_datetime = 4, PULocationID = 2\<rparr>]
   \<and> sort_values [\<lparr>pickup_datetime = 5, PULocationID = 2\<rparr>, \<lparr>pickup_datetime = 3, PULocationID = 1\<rparr>,
       \<lparr>pickup_datetime = 4, PULocationID = 2\<rparr>]
     = [\<lparr>pickup_datetime = 3, PULocationID = 1\<rparr>, \<lparr>pickup_datetime = 4, PULocationID = 2\<rparr>,
        \<lparr>pickup_datetime = 5, PULocationID = 2\<rparr>]
   \<and> zone_starts [1, 2, 2] ! 1 \<le> 2 \<and> 2 < zone_ends [1, 2, 2] ! 1"
proof -
  let ?xs = "[\<lparr>pickup_datetime = 5, PULocationID = 2\<rparr>, \<lparr>pickup_datetime = 3, PULocationID = 1\<rparr>,
       \<lparr>pickup_datetime = 4, PULocationID = 2\<rparr>]"
  have s: "sort_values ?xs = [\<lparr>pickup_datetime = 3, PULocationID = 1\<rparr>,
       \<lparr>pickup_datetime = 4, PULocationID = 2\<rparr>, \<lparr>pickup_datetime = 5, PULocationID = 2\<rparr>]"
    by (simp add: sort_values_def)
  have u: "unique_values [1, 2, 2] = [1, 2]" by (simp add: unique_values_def)
  have "\<forall>k<length (unique_values (map PULocationID (sort_values ?xs))). \<forall>i<length ?xs.
          (zone_starts (map PULocationID (sort_values ?xs)) ! k \<le> i
           \<and> i < zone_ends (map PULocationID (sort_values ?xs)) ! k)
          = (PULocationID (sort_values ?xs ! i)
             = unique_values (map PULocationID (sort_values ?xs)) ! k)"
    using entity_partitioner [of ?xs] by blast
  then have "(zone_starts [1, 2, 2] ! 1 \<le> 2 \<and> 2 < zone_ends [1, 2, 2] ! 1)
          = (PULocationID ([\<lparr>pickup_datetime = 3, PULocationID = 1\<rparr>,
       \<lparr>pickup_datetime = 4, PULocationID = 2\<rparr>, \<lparr>pickup_datetime = 5, PULocationID = 2\<rparr>] ! 2)
             = [1, 2] ! 1)"
    unfolding s by (simp add: u)
  then show ?thesis using s u by simp
qed

section \<open>The trip-level table\<close>

lemma length_zone_counts:
  assumes "sorted zs" "length ts = length zs"
  shows "length (zone_counts ts zs w) = length zs"
proof -
  have "map length (map (\<lambda>v. rolling (slice ts (length (filter (\<lambda>x. x < v) zs))
                                        (length (filter (\<lambda>x. x \<le> v) zs))) w) (unique_values zs))
      = map (\<lambda>(s, e). length [s..<e]) (zip (zone_starts zs) (zone_ends zs))"
    using assms by (simp add: zone_bounds comp_def length_rolling length_slice)
  then have "length (zone_counts ts zs w)
      = length (concat (map (\<lambda>(s, e). [s..<e]) (zip (zone_starts zs) (zone_ends zs))))"
    unfolding zone_counts_def length_concat
    by (simp add: comp_def case_prod_unfold)
  then show ?thesis using zone_ranges_cover [OF assms(1)] by simp
qed

text \<open>The trip-level table does not depend on what the result arrays held before the loop.\<close>

lemma trip_level_eq:
  "trip_level mem raw =
     (let trips = sort_values (clean_trips raw);
          ts = map pickup_datetime trips;
          zs = map PULocationID trips
      in with_columns trips \<lparr>r1h = zone_counts ts zs ns_1h, r6h = zone_counts ts zs ns_6h,
                             r24h = zone_counts ts zs ns_24h\<rparr>)"
proof -
  let ?trips = "sort_values (clean_trips raw)"
  let ?ts = "map pickup_datetime ?trips"
  let ?zs = "map PULocationID ?trips"
  let ?c = "\<lparr>r1h = np_empty (mem 0) (length ?trips), r6h = np_empty (mem 1) (length ?trips),
             r24h = np_empty (mem 2) (length ?trips)\<rparr>"
  have srt: "sorted ?zs" by (rule sort_values_zone_sorted)
  have "r1h (zone_loop ?ts ?zs ?c) = zone_counts ?ts ?zs ns_1h"
    and "r6h (zone_loop ?ts ?zs ?c) = zone_counts ?ts ?zs ns_6h"
    and "r24h (zone_loop ?ts ?zs ?c) = zone_counts ?ts ?zs ns_24h"
    using srt by (simp_all add: zone_loop_columns np_empty_def)
  then show ?thesis
    by (simp add: trip_level_def Let_def with_columns_def)
qed

lemma length_trip_level: "length (trip_level mem raw) = length (clean_trips raw)"
  by (simp add: trip_level_eq Let_def with_columns_def sort_values_def)


lemma count_lt_mono:
  fixes u v :: "'a::linorder"
  assumes "u \<le> v"
  shows "length (filter (\<lambda>x. x < u) zs) \<le> length (filter (\<lambda>x. x < v) zs)"
proof -
  have "filter (\<lambda>x. x < u) zs = filter (\<lambda>x. x < u) (filter (\<lambda>x. x < v) zs)"
    using assms by (simp add: conj_commute) (rule filter_cong, auto)
  then show ?thesis by (metis length_filter_le)
qed

lemma concat_ranges_nth:
  assumes "sorted (u # us)" "distinct (u # us)" "\<forall>x\<in>set zs. x \<le> u \<or> x \<in> set us"
    and "\<And>v. length (g v) = length (filter (\<lambda>x. x \<le> v) zs) - length (filter (\<lambda>x. x < v) zs)"
    and "v \<in> set (u # us)"
    and "length (filter (\<lambda>x. x < v) zs) \<le> k" "k < length (filter (\<lambda>x. x \<le> v) zs)"
  shows "concat (map g (u # us)) ! (k - length (filter (\<lambda>x. x < u) zs))
       = g v ! (k - length (filter (\<lambda>x. x < v) zs))"
  using assms(1-3,5)
proof (induction us arbitrary: u)
  case Nil
  then have "v = u" by simp
  then show ?case by simp
next
  case (Cons u' us)
  let ?lt = "\<lambda>v. length (filter (\<lambda>x. x < v) zs)"
  let ?le = "\<lambda>v. length (filter (\<lambda>x. x \<le> v) zs)"
  show ?case
  proof (cases "v = u")
    case True
    have "k - ?lt u < length (g u)"
      using assms(4) [of u] assms(6,7) True by simp
    then show ?thesis using True by (simp add: nth_append)
  next
    case False
    then have v: "v \<in> set (u' # us)" using Cons.prems(4) by simp
    have lt: "u < u'" using Cons.prems(1,2) by (simp add: order_less_le)
    have cov: "\<forall>x\<in>set zs. x \<le> u' \<or> x \<in> set us"
      using Cons.prems(3) lt by auto
    have eq: "?lt u' = ?le u"
      using ends_are_counts [OF Cons.prems(1-3)] by simp
    have "u' \<le> v" using v Cons.prems(1) by auto
    then have "?lt u' \<le> ?lt v" by (rule count_lt_mono)
    then have ge: "?le u \<le> k" using eq assms(6) by simp
    have le1: "?lt u \<le> ?le u" by (rule count_lt_le)
    have ih: "concat (map g (u' # us)) ! (k - ?lt u') = g v ! (k - ?lt v)"
      using Cons.IH [of u'] Cons.prems(1,2) cov v by simp
    define rest where "rest = concat (map g (u' # us))"
    have nl: "\<not> k - ?lt u < length (g u)"
      using assms(4) [of u] ge le1 by linarith
    have idx: "k - ?lt u - length (g u) = k - ?lt u'"
      using assms(4) [of u] ge le1 eq by linarith
    have "concat (map g (u # u' # us)) ! (k - ?lt u) = (g u @ rest) ! (k - ?lt u)"
      by (simp add: rest_def)
    also have "\<dots> = rest ! (k - ?lt u - length (g u))"
      using nl by (simp only: nth_append if_False)
    also have "\<dots> = rest ! (k - ?lt u')"
      by (simp only: idx)
    finally show ?thesis using ih by (simp only: rest_def)
  qed
qed

lemma zone_counts_nth:
  assumes "sorted zs" "length ts = length zs" "k < length zs"
  shows "zone_counts ts zs w ! k
       = rolling (slice ts (length (filter (\<lambda>x. x < zs ! k) zs))
                          (length (filter (\<lambda>x. x \<le> zs ! k) zs))) w
           ! (k - length (filter (\<lambda>x. x < zs ! k) zs))"
proof (cases "unique_values zs")
  case Nil
  then have "set zs = {}" by (metis empty_set set_remdups set_sort unique_values_def)
  then show ?thesis using assms(3) by simp
next
  case (Cons u us)
  let ?lt = "\<lambda>v. length (filter (\<lambda>x. x < v) zs)"
  let ?le = "\<lambda>v. length (filter (\<lambda>x. x \<le> v) zs)"
  let ?g = "\<lambda>v. rolling (slice ts (?lt v) (?le v)) w"
  have set_eq: "set (u # us) = set zs"
    using Cons [symmetric] by (simp add: unique_values_def)
  have sd: "sorted (u # us)" "distinct (u # us)"
    using Cons [symmetric] by (simp_all add: unique_values_def)
  have cov: "\<forall>x\<in>set zs. x \<le> u \<or> x \<in> set us" using set_eq by auto
  have "\<forall>x\<in>set zs. u \<le> x" using sd(1) set_eq by auto
  then have "filter (\<lambda>x. x < u) zs = []" by (auto simp: filter_empty_conv)
  then have zero: "?lt u = 0" by simp
  have len: "\<And>v. length (?g v) = ?le v - ?lt v"
    using assms(2) by (simp add: length_rolling length_slice)
  have v: "zs ! k \<in> set (u # us)" using assms(3) set_eq by simp
  have rng: "?lt (zs ! k) \<le> k \<and> k < ?le (zs ! k)"
    using zone_at_index [OF assms(1,3), of "zs ! k"] by simp
  have "concat (map ?g (u # us)) ! (k - ?lt u) = ?g (zs ! k) ! (k - ?lt (zs ! k))"
    using sd cov len v rng by (intro concat_ranges_nth) simp_all
  then show ?thesis using zero by (simp add: zone_counts_def Cons)
qed

lemma zone_slice_sorted:
  fixes trips :: "'a trip_scheme list"
  assumes "sorted_wrt lex_le trips"
  shows "sorted (slice (map pickup_datetime trips)
           (length (filter (\<lambda>x. x < v) (map PULocationID trips)))
           (length (filter (\<lambda>x. x \<le> v) (map PULocationID trips))))"
proof -
  define zs where "zs = map PULocationID trips"
  define ts where "ts = map pickup_datetime trips"
  define s where "s = length (filter (\<lambda>x. x < v) zs)"
  define e where "e = length (filter (\<lambda>x. x \<le> v) zs)"
  have len: "length zs = length trips" "length ts = length trips"
    by (simp_all add: zs_def ts_def)
  have e: "e \<le> length trips" unfolding e_def len(1) [symmetric] by (rule length_filter_le)
  have zsrt: "sorted zs"
    unfolding zs_def using assms
    by (simp add: sorted_map) (rule sorted_wrt_mono_rel [rotated], assumption, auto simp: lex_le_def)
  have "sorted (slice ts s e)"
  proof (subst sorted_iff_nth_mono_less, intro allI impI)
    fix i j assume ij: "i < j" "j < length (slice ts s e)"
    then have j: "j < e - s" using e len by (simp add: length_slice)
    have ri: "s \<le> s + i" "s + i < e" "s + i < length zs"
      using ij(1) e j len by linarith+
    have rj: "s \<le> s + j" "s + j < e" "s + j < length zs"
      using e j len by linarith+
    have zi: "zs ! (s + i) = v"
      using zone_at_index [OF zsrt ri(3), of v] ri(1,2) unfolding s_def e_def by blast
    have zj: "zs ! (s + j) = v"
      using zone_at_index [OF zsrt rj(3), of v] rj(1,2) unfolding s_def e_def by blast
    have "s + i < s + j" "s + j < length trips" using ij(1) rj(3) len by linarith+
    then have "lex_le (trips ! (s + i)) (trips ! (s + j))"
      using assms by (simp add: sorted_wrt_nth_less)
    moreover have "PULocationID (trips ! (s + i)) = v" "PULocationID (trips ! (s + j)) = v"
      using zi zj ri(3) rj(3) len by (simp_all add: zs_def)
    ultimately have "pickup_datetime (trips ! (s + i)) \<le> pickup_datetime (trips ! (s + j))"
      by (simp add: lex_le_def)
    moreover have "slice ts s e ! i = ts ! (s + i)" "slice ts s e ! j = ts ! (s + j)"
      using e len j ij(1) by (simp_all add: nth_slice)
    moreover have "ts ! (s + i) = pickup_datetime (trips ! (s + i))"
      "ts ! (s + j) = pickup_datetime (trips ! (s + j))"
      using ri(3) rj(3) len by (simp_all add: ts_def)
    ultimately show "slice ts s e ! i \<le> slice ts s e ! j" by simp
  qed
  then show ?thesis by (simp only: zs_def ts_def s_def e_def)
qed

lemma rolling_window_mono:
  assumes "sorted t" "i < length t" "length t < 2147483648" "0 \<le> w1" "w1 \<le> w2"
    and "- 9223372036854775808 + w2 \<le> t ! i" "t ! i < 9223372036854775808"
  shows "rolling t w1 ! i \<le> rolling t w2 ! i"
proof -
  have k1: "- 9223372036854775808 \<le> t ! i - w1" "t ! i - w1 < 9223372036854775808"
    using assms(4-7) by linarith+
  have k2: "- 9223372036854775808 \<le> t ! i - w2" "t ! i - w2 < 9223372036854775808"
    using assms(4-7) by linarith+
  have r1: "rolling t w1 ! i = int i - int (lower_bound t (t ! i - w1))"
    using assms(2,3) k1 by (rule rolling_nth_exact)
  have r2: "rolling t w2 ! i = int i - int (lower_bound t (t ! i - w2))"
    using assms(2,3) k2 by (rule rolling_nth_exact)
  have "t ! i - w2 \<le> t ! i - w1" using assms(5) by simp
  then have "lower_bound t (t ! i - w2) \<le> lower_bound t (t ! i - w1)"
    using assms(1) by (intro lower_bound_mono)
  then show ?thesis using r1 r2 by simp
qed

lemma length_clean_trips: "length (clean_trips raw) \<le> length raw"
proof -
  have "length (clean_trips raw) \<le> length (dropna raw)"
    by (simp add: clean_trips_def map_filter_def del: typed.simps)
  also have "\<dots> \<le> length raw" by (simp add: dropna_def)
  finally show ?thesis .
qed

lemma trip_level_row:
  assumes "k < length (clean_trips raw)"
  defines "trips \<equiv> sort_values (clean_trips raw)"
  defines "ts \<equiv> map pickup_datetime (sort_values (clean_trips raw))"
  defines "zs \<equiv> map PULocationID (sort_values (clean_trips raw))"
  shows "pickup_datetime (trip_level mem raw ! k) = ts ! k"
    and "PULocationID (trip_level mem raw ! k) = zs ! k"
    and "rolling_1h (trip_level mem raw ! k) = zone_counts ts zs ns_1h ! k"
    and "rolling_6h (trip_level mem raw ! k) = zone_counts ts zs ns_6h ! k"
    and "rolling_24h (trip_level mem raw ! k) = zone_counts ts zs ns_24h ! k"
  using assms(1)
  by (simp_all add: trip_level_eq Let_def with_columns_def sort_values_def ts_def zs_def)

section \<open>Claim about the nesting of the windows\<close>

text \<open>
  Claim C3, amended. For every input of fewer than \<open>2^31\<close> rows and every row of the
  trip-level table whose pickup time is an \<open>int64\<close> at least 24 hours above the smallest
  \<open>int64\<close> (from 1677-09-22 00:12:43.145224192 on), the three stored counts grow with the
  window: the one-hour count is at most the six-hour count, which is at most the 24-hour
  count. The partition of the row is sorted by construction, so no hypothesis on the order
  of the input is needed.
\<close>

theorem rolling_counts_nest:
  assumes "k < length (trip_level mem raw)" "length raw < 2147483648"
    and "- 9223285636854775808 \<le> pickup_datetime (trip_level mem raw ! k)"
    and "pickup_datetime (trip_level mem raw ! k) < 9223372036854775808"
  shows "rolling_1h (trip_level mem raw ! k) \<le> rolling_6h (trip_level mem raw ! k)
       \<and> rolling_6h (trip_level mem raw ! k) \<le> rolling_24h (trip_level mem raw ! k)"
proof -
  define trips where "trips = sort_values (clean_trips raw)"
  define ts where "ts = map pickup_datetime trips"
  define zs where "zs = map PULocationID trips"
  define s where "s = length (filter (\<lambda>x. x < zs ! k) zs)"
  define e where "e = length (filter (\<lambda>x. x \<le> zs ! k) zs)"
  define t where "t = slice ts s e"
  have n: "length trips = length (clean_trips raw)" by (simp add: trips_def sort_values_def)
  have k: "k < length (clean_trips raw)" using assms(1) by (simp add: length_trip_level)
  have len: "length zs = length trips" "length ts = length trips" by (simp_all add: zs_def ts_def)
  have kz: "k < length zs" using k n len by simp
  have small: "length trips < 2147483648"
    using length_clean_trips [of raw] assms(2) n by linarith
  have zsrt: "sorted zs" unfolding zs_def trips_def by (rule sort_values_zone_sorted)
  have e: "e \<le> length ts" unfolding e_def len(2) len(1) [symmetric] by (rule length_filter_le)
  have rng: "s \<le> k \<and> k < e"
    using zone_at_index [OF zsrt kz, of "zs ! k"] by (simp add: s_def e_def)
  have tsrt: "sorted t"
    unfolding t_def ts_def zs_def s_def e_def trips_def
    by (rule zone_slice_sorted) (rule sort_values_lex)
  have lt: "length t = e - s" unfolding t_def using e by (rule length_slice)
  have i: "k - s < length t" using rng lt by linarith
  have tsmall: "length t < 2147483648" using lt e len small by linarith
  have "t ! (k - s) = ts ! (s + (k - s))"
    unfolding t_def using e i lt by (intro nth_slice) simp_all
  then have ti: "t ! (k - s) = ts ! k" using rng by simp
  have row: "pickup_datetime (trip_level mem raw ! k) = ts ! k"
    "rolling_1h (trip_level mem raw ! k) = zone_counts ts zs ns_1h ! k"
    "rolling_6h (trip_level mem raw ! k) = zone_counts ts zs ns_6h ! k"
    "rolling_24h (trip_level mem raw ! k) = zone_counts ts zs ns_24h ! k"
    using trip_level_row [OF k, of mem] by (simp_all add: ts_def zs_def trips_def)
  have cnt: "zone_counts ts zs w ! k = rolling t w ! (k - s)" for w
    unfolding t_def s_def e_def using zsrt len kz by (intro zone_counts_nth) simp_all
  have lo: "- 9223372036854775808 + ns_24h \<le> t ! (k - s)"
    using assms(3) row(1) ti by (simp add: ns_24h_def)
  have lo6: "- 9223372036854775808 + ns_6h \<le> t ! (k - s)"
    using lo by (simp add: ns_24h_def ns_6h_def)
  have hi: "t ! (k - s) < 9223372036854775808"
    using assms(4) row(1) ti by simp
  have "rolling t ns_1h ! (k - s) \<le> rolling t ns_6h ! (k - s)"
    using tsrt i tsmall _ _ lo6 hi by (rule rolling_window_mono) (simp_all add: ns_1h_def ns_6h_def)
  moreover have "rolling t ns_6h ! (k - s) \<le> rolling t ns_24h ! (k - s)"
    using tsrt i tsmall _ _ lo hi by (rule rolling_window_mono) (simp_all add: ns_6h_def ns_24h_def)
  ultimately show ?thesis by (simp add: row cnt)
qed

theorem rolling_counts_nest_witness:
  "(1::nat) < length (trip_level (\<lambda>a i. 0)
       [\<lparr>raw_pickup_datetime = Some 1735693200000000000, raw_PULocationID = Some 7\<rparr>,
        \<lparr>raw_pickup_datetime = None, raw_PULocationID = Some 7\<rparr>,
        \<lparr>raw_pickup_datetime = Some 1735689600000000000, raw_PULocationID = Some 7\<rparr>])
   \<and> pickup_datetime (trip_level (\<lambda>a i. 0)
       [\<lparr>raw_pickup_datetime = Some 1735693200000000000, raw_PULocationID = Some 7\<rparr>,
        \<lparr>raw_pickup_datetime = None, raw_PULocationID = Some 7\<rparr>,
        \<lparr>raw_pickup_datetime = Some 1735689600000000000, raw_PULocationID = Some 7\<rparr>] ! 1)
      = 1735693200000000000
   \<and> rolling_1h (trip_level (\<lambda>a i. 0)
       [\<lparr>raw_pickup_datetime = Some 1735693200000000000, raw_PULocationID = Some 7\<rparr>,
        \<lparr>raw_pickup_datetime = None, raw_PULocationID = Some 7\<rparr>,
        \<lparr>raw_pickup_datetime = Some 1735689600000000000, raw_PULocationID = Some 7\<rparr>] ! 1)
     \<le> rolling_6h (trip_level (\<lambda>a i. 0)
       [\<lparr>raw_pickup_datetime = Some 1735693200000000000, raw_PULocationID = Some 7\<rparr>,
        \<lparr>raw_pickup_datetime = None, raw_PULocationID = Some 7\<rparr>,
        \<lparr>raw_pickup_datetime = Some 1735689600000000000, raw_PULocationID = Some 7\<rparr>] ! 1)
   \<and> rolling_6h (trip_level (\<lambda>a i. 0)
       [\<lparr>raw_pickup_datetime = Some 1735693200000000000, raw_PULocationID = Some 7\<rparr>,
        \<lparr>raw_pickup_datetime = None, raw_PULocationID = Some 7\<rparr>,
        \<lparr>raw_pickup_datetime = Some 1735689600000000000, raw_PULocationID = Some 7\<rparr>] ! 1)
     \<le> rolling_24h (trip_level (\<lambda>a i. 0)
       [\<lparr>raw_pickup_datetime = Some 1735693200000000000, raw_PULocationID = Some 7\<rparr>,
        \<lparr>raw_pickup_datetime = None, raw_PULocationID = Some 7\<rparr>,
        \<lparr>raw_pickup_datetime = Some 1735689600000000000, raw_PULocationID = Some 7\<rparr>] ! 1)"
proof -
  let ?raw = "[\<lparr>raw_pickup_datetime = Some 1735693200000000000, raw_PULocationID = Some 7\<rparr>,
        \<lparr>raw_pickup_datetime = None, raw_PULocationID = Some 7\<rparr>,
        \<lparr>raw_pickup_datetime = Some 1735689600000000000, raw_PULocationID = Some 7\<rparr>]"
  have l: "length (trip_level (\<lambda>a i. 0) ?raw) = 2"
    by (simp add: length_trip_level clean_trips_def dropna_def map_filter_def)
  have p: "pickup_datetime (trip_level (\<lambda>a i. 0) ?raw ! 1) = 1735693200000000000"
    by code_simp
  show ?thesis
    using rolling_counts_nest [of 1 "\<lambda>a i. 0" ?raw] l p by simp
qed

text \<open>
  Claim C3 as stated fails where \<open>t - w\<close> wraps around for the larger window only: an event
  two hours after the smallest timestamp gets the one-hour count 0 and the six-hour count
  \<open>-1\<close>.
\<close>

theorem rolling_counts_do_not_nest:
  "rolling_1h (trip_level (\<lambda>a i. 0)
       [\<lparr>raw_pickup_datetime = Some (- 9223364836854775807), raw_PULocationID = Some 7\<rparr>] ! 0) = 0
   \<and> rolling_6h (trip_level (\<lambda>a i. 0)
       [\<lparr>raw_pickup_datetime = Some (- 9223364836854775807), raw_PULocationID = Some 7\<rparr>] ! 0) = - 1"
  by code_simp

section \<open>Claim about the event normalizer\<close>

lemma map_filter_typed:
  "List.map_filter (typed b) (dropna raw)
     = map (\<lambda>r. \<lparr>pickup_datetime = the (raw_pickup_datetime r),
                  PULocationID = astype_int32 b (the (raw_PULocationID r))\<rparr>)
         (filter (\<lambda>r. raw_pickup_datetime r \<noteq> None \<and> raw_PULocationID r \<noteq> None) raw)"
  by (induction raw) (auto simp: dropna_def map_filter_def split: option.splits)

lemma clean_trips_map:
  "clean_trips raw
     = map (\<lambda>r. \<lparr>pickup_datetime = the (raw_pickup_datetime r),
                  PULocationID = astype_int32 (zone_is_float raw) (the (raw_PULocationID r))\<rparr>)
         (filter (\<lambda>r. raw_pickup_datetime r \<noteq> None \<and> raw_PULocationID r \<noteq> None) raw)"
  by (simp add: clean_trips_def map_filter_typed)

lemma int32_range: "- 2147483648 \<le> int32 x \<and> int32 x < 2147483648"
  by (simp add: int32_def)

lemma astype_int32_range:
  "- 2147483648 \<le> astype_int32 b z \<and> astype_int32 b z < 2147483648"
  using int32_range [of z] by (simp add: astype_int32_def)

lemma astype_int32_id:
  "- 2147483648 \<le> z \<Longrightarrow> z < 2147483648 \<Longrightarrow> astype_int32 b z = z"
  by (simp add: astype_int32_def int32_id)

text \<open>
  Claim C7, amended. The normalizer returns, in input order, one event for each raw record
  that has both a pickup time and a zone, and none for the others: the event has the
  pickup time of its record and, whenever the zone number of the record is an \<open>int32\<close>,
  that zone number. The number of dropped rows is the number of raw records that miss one
  of the two, and every returned zone number is an \<open>int32\<close>. No count of dropped rows is
  printed: the script prints the number of rows loaded, which is the number of dropped
  rows plus the number of returned rows.
\<close>

theorem event_normalizer:
  "map pickup_datetime (clean_trips raw)
     = map (\<lambda>r. the (raw_pickup_datetime r))
         (filter (\<lambda>r. raw_pickup_datetime r \<noteq> None \<and> raw_PULocationID r \<noteq> None) raw)
   \<and> (\<forall>i<length (clean_trips raw).
         - 2147483648 \<le> the (raw_PULocationID
              (filter (\<lambda>r. raw_pickup_datetime r \<noteq> None \<and> raw_PULocationID r \<noteq> None) raw ! i))
         \<and> the (raw_PULocationID
              (filter (\<lambda>r. raw_pickup_datetime r \<noteq> None \<and> raw_PULocationID r \<noteq> None) raw ! i))
            < 2147483648
         \<longrightarrow> PULocationID (clean_trips raw ! i)
             = the (raw_PULocationID
                 (filter (\<lambda>r. raw_pickup_datetime r \<noteq> None \<and> raw_PULocationID r \<noteq> None) raw ! i)))
   \<and> dropped_rows raw
     = length (filter (\<lambda>r. raw_pickup_datetime r = None \<or> raw_PULocationID r = None) raw)
   \<and> (\<forall>e\<in>set (clean_trips raw). - 2147483648 \<le> PULocationID e \<and> PULocationID e < 2147483648)
   \<and> printed_on_load raw = [dropped_rows raw + length (clean_trips raw)]"
proof -
  let ?ok = "\<lambda>r. raw_pickup_datetime r \<noteq> None \<and> raw_PULocationID r \<noteq> None"
  have ts: "map pickup_datetime (clean_trips raw)
      = map (\<lambda>r. the (raw_pickup_datetime r)) (filter ?ok raw)"
    by (simp add: clean_trips_map comp_def)
  have len: "length (clean_trips raw) = length (filter ?ok raw)"
    by (simp add: clean_trips_map)
  have zone: "\<forall>i<length (clean_trips raw).
         - 2147483648 \<le> the (raw_PULocationID (filter ?ok raw ! i))
         \<and> the (raw_PULocationID (filter ?ok raw ! i)) < 2147483648
         \<longrightarrow> PULocationID (clean_trips raw ! i) = the (raw_PULocationID (filter ?ok raw ! i))"
  proof (intro allI impI)
    fix i assume i: "i < length (clean_trips raw)"
      and r: "- 2147483648 \<le> the (raw_PULocationID (filter ?ok raw ! i))
         \<and> the (raw_PULocationID (filter ?ok raw ! i)) < 2147483648"
    have "PULocationID (clean_trips raw ! i)
        = astype_int32 (zone_is_float raw) (the (raw_PULocationID (filter ?ok raw ! i)))"
      using i len by (simp add: clean_trips_map)
    then show "PULocationID (clean_trips raw ! i) = the (raw_PULocationID (filter ?ok raw ! i))"
      using r by (simp add: astype_int32_id)
  qed
  have "length raw = length (filter ?ok raw) + length (filter (\<lambda>r. \<not> ?ok r) raw)"
    by (rule sum_length_filter_compl [symmetric])
  then have d: "dropped_rows raw
      = length (filter (\<lambda>r. raw_pickup_datetime r = None \<or> raw_PULocationID r = None) raw)"
    using len by (simp add: dropped_rows_def)
  have le: "length (clean_trips raw) \<le> length raw" by (rule length_clean_trips)
  have rng: "\<forall>e\<in>set (clean_trips raw). - 2147483648 \<le> PULocationID e \<and> PULocationID e < 2147483648"
    using astype_int32_range by (auto simp: clean_trips_map)
  have "printed_on_load raw = [dropped_rows raw + length (clean_trips raw)]"
    using le by (simp add: printed_on_load_def dropped_rows_def)
  then show ?thesis using ts zone d rng by blast
qed

theorem event_normalizer_witness:
  "\<lparr>pickup_datetime = 1735689600000000000, PULocationID = 10\<rparr>
     \<in> set (clean_trips
         [\<lparr>raw_pickup_datetime = Some 1735689600000000000, raw_PULocationID = Some 10\<rparr>,
          \<lparr>raw_pickup_datetime = None, raw_PULocationID = Some 10\<rparr>,
          \<lparr>raw_pickup_datetime = Some 1735689600000000000, raw_PULocationID = None\<rparr>])
   \<and> - 2147483648 \<le> PULocationID \<lparr>pickup_datetime = 1735689600000000000, PULocationID = 10\<rparr>
   \<and> dropped_rows
         [\<lparr>raw_pickup_datetime = Some 1735689600000000000, raw_PULocationID = Some 10\<rparr>,
          \<lparr>raw_pickup_datetime = None, raw_PULocationID = Some 10\<rparr>,
          \<lparr>raw_pickup_datetime = Some 1735689600000000000, raw_PULocationID = None\<rparr>] = 2"
proof -
  let ?raw = "[\<lparr>raw_pickup_datetime = Some 1735689600000000000, raw_PULocationID = Some 10\<rparr>,
          \<lparr>raw_pickup_datetime = None, raw_PULocationID = Some 10\<rparr>,
          \<lparr>raw_pickup_datetime = Some 1735689600000000000, raw_PULocationID = None\<rparr>]"
  have m: "\<lparr>pickup_datetime = 1735689600000000000, PULocationID = 10\<rparr> \<in> set (clean_trips ?raw)"
    by (simp add: clean_trips_map astype_int32_def int32_def)
  have "\<forall>e\<in>set (clean_trips ?raw). - 2147483648 \<le> PULocationID e \<and> PULocationID e < 2147483648"
    and d: "dropped_rows ?raw
     = length (filter (\<lambda>r. raw_pickup_datetime r = None \<or> raw_PULocationID r = None) ?raw)"
    using event_normalizer [of ?raw] by blast+
  then have "- 2147483648 \<le> PULocationID \<lparr>pickup_datetime = 1735689600000000000, PULocationID = 10\<rparr>"
    using m by blast
  moreover have "dropped_rows ?raw = 2" unfolding d by simp
  ultimately show ?thesis using m by blast
qed

text \<open>
  Claim C7 as stated fails in its last part: of five loaded rows two are dropped, and the
  only number that the script prints before it sorts is 5.
\<close>

theorem dropped_rows_not_printed:
  "dropped_rows
     [\<lparr>raw_pickup_datetime = Some 1735689600000000000, raw_PULocationID = Some 10\<rparr>,
      \<lparr>raw_pickup_datetime = None, raw_PULocationID = Some 10\<rparr>,
      \<lparr>raw_pickup_datetime = Some 1735693200000000000, raw_PULocationID = Some 20\<rparr>,
      \<lparr>raw_pickup_datetime = Some 1735689600000000000, raw_PULocationID = None\<rparr>,
      \<lparr>raw_pickup_datetime = Some 1735696800000000000, raw_PULocationID = Some 30\<rparr>] = 2
   \<and> printed_on_load
     [\<lparr>raw_pickup_datetime = Some 1735689600000000000, raw_PULocationID = Some 10\<rparr>,
      \<lparr>raw_pickup_datetime = None, raw_PULocationID = Some 10\<rparr>,
      \<lparr>raw_pickup_datetime = Some 1735693200000000000, raw_PULocationID = Some 20\<rparr>,
      \<lparr>raw_pickup_datetime = Some 1735689600000000000, raw_PULocationID = None\<rparr>,
      \<lparr>raw_pickup_datetime = Some 1735696800000000000, raw_PULocationID = Some 30\<rparr>] = [5]"
  by (simp add: dropped_rows_def printed_on_load_def clean_trips_map)

text \<open>
  The two casts of a zone number outside the \<open>int32\<close> range: in a column with a missing
  zone, and in a column without one.
\<close>

lemma float_cast_example:
  "map PULocationID (clean_trips
     [\<lparr>raw_pickup_datetime = Some 0, raw_PULocationID = Some 2147483653\<rparr>,
      \<lparr>raw_pickup_datetime = Some 0, raw_PULocationID = None\<rparr>,
      \<lparr>raw_pickup_datetime = Some 0, raw_PULocationID = Some 5\<rparr>]) = [- 2147483648, 5]
   \<and> map PULocationID (clean_trips
     [\<lparr>raw_pickup_datetime = Some 0, raw_PULocationID = Some 2147483653\<rparr>,
      \<lparr>raw_pickup_datetime = Some 0, raw_PULocationID = Some 5\<rparr>]) = [- 2147483643, 5]"
  by (simp add: clean_trips_map astype_int32_def zone_is_float_def int32_def)

section \<open>Claim about the sorted partitions\<close>

lemma zone_slices_sorted:
  fixes xs :: "'a trip_scheme list"
  assumes "b \<in> set (zip (zone_starts (map PULocationID (sort_values xs)))
                         (zone_ends (map PULocationID (sort_values xs))))"
  shows "sorted (slice (map pickup_datetime (sort_values xs)) (fst b) (snd b))"
proof -
  let ?zs = "map PULocationID (sort_values xs)"
  have "sorted ?zs" by (rule sort_values_zone_sorted)
  then obtain v where "b = (length (filter (\<lambda>x. x < v) ?zs), length (filter (\<lambda>x. x \<le> v) ?zs))"
    using assms by (auto simp: zone_bounds)
  then show ?thesis using zone_slice_sorted [OF sort_values_lex, of xs v] by simp
qed

text \<open>
  Claim C5 as stated fails: for a partition whose timestamps descend, the counter
  returns counts and raises nothing.
\<close>

theorem rolling_unsorted_returns_counts:
  "\<not> sorted [2, 1 :: int] \<and> rolling [2, 1] ns_1h = [0, 1]"
  by (simp add: ns_1h_def rolling_def arange_def searchsorted_left_def sub_scalar_def
      lower_bound_def binsearch_left.simps int64_def int32_def)

text \<open>
  Claim C5, amended. The counter checks nothing and raises nothing: for every partition,
  sorted or not, and every window it returns one \<open>int32\<close> count for each event. That the
  timestamps of a partition ascend is not checked by the counter but established before
  it: for every input table, every slice between a \<open>_zone_starts\<close> entry and its
  \<open>_zone_ends\<close> entry, which is what the loop passes to the counter, is sorted.
\<close>

theorem rolling_total:
  fixes xs :: "'a trip_scheme list"
  shows "length (rolling t w) = length t
   \<and> (\<forall>i<length t. - 2147483648 \<le> rolling t w ! i \<and> rolling t w ! i < 2147483648)
   \<and> (\<forall>b\<in>set (zip (zone_starts (map PULocationID (sort_values xs)))
                    (zone_ends (map PULocationID (sort_values xs)))).
         sorted (slice (map pickup_datetime (sort_values xs)) (fst b) (snd b)))"
  using zone_slices_sorted [of _ xs]
  by (simp add: length_rolling rolling_nth int32_range)

theorem rolling_total_witness:
  "length (rolling [5, 3, 4] ns_6h) = 3
   \<and> - 2147483648 \<le> rolling [5, 3, 4] ns_6h ! 1 \<and> rolling [5, 3, 4] ns_6h ! 1 < 2147483648
   \<and> (1, 3) \<in> set (zip (zone_starts (map PULocationID (sort_values
        [\<lparr>pickup_datetime = 5, PULocationID = 2\<rparr>, \<lparr>pickup_datetime = 3, PULocationID = 1\<rparr>,
         \<lparr>pickup_datetime = 4, PULocationID = 2\<rparr>])))
       (zone_ends (map PULocationID (sort_values
        [\<lparr>pickup_datetime = 5, PULocationID = 2\<rparr>, \<lparr>pickup_datetime = 3, PULocationID = 1\<rparr>,
         \<lparr>pickup_datetime = 4, PULocationID = 2\<rparr>]))))
   \<and> sorted (slice (map pickup_datetime (sort_values
        [\<lparr>pickup_datetime = 5, PULocationID = 2\<rparr>, \<lparr>pickup_datetime = 3, PULocationID = 1\<rparr>,
         \<lparr>pickup_datetime = 4, PULocationID = 2\<rparr>])) 1 3)"
proof -
  let ?xs = "[\<lparr>pickup_datetime = 5, PULocationID = 2\<rparr>, \<lparr>pickup_datetime = 3, PULocationID = 1\<rparr>,
         \<lparr>pickup_datetime = 4, PULocationID = 2\<rparr>]"
  have m: "(1, 3) \<in> set (zip (zone_starts (map PULocationID (sort_values ?xs)))
       (zone_ends (map PULocationID (sort_values ?xs))))"
    by (simp add: sort_values_def zone_starts_def zone_ends_def unique_values_def)
  have "sorted (slice (map pickup_datetime (sort_values ?xs)) (fst (1::nat, 3::nat)) (snd (1::nat, 3::nat)))"
    using rolling_total [of "[5, 3, 4]" ns_6h ?xs] m by blast
  then show ?thesis using rolling_total [of "[5, 3, 4]" ns_6h ?xs] m by simp
qed

section \<open>Claims about the daily aggregator\<close>


lemma dt_normalize_raises:
  "dt_normalize t = Inl ValueError \<longleftrightarrow> t < - 9223286400000000000"
proof -
  have m: "0 \<le> t mod 86400000000000" "t mod 86400000000000 < 86400000000000" by simp_all
  have e: "t = 86400000000000 * (t div 86400000000000) + t mod 86400000000000" by simp
  have "t - t mod 86400000000000 < - 9223372036854775808 \<longleftrightarrow> t < - 9223286400000000000"
  proof
    assume a: "t - t mod 86400000000000 < - 9223372036854775808"
    have "86400000000000 * (t div 86400000000000) < - 9223372036854775808" using a e by linarith
    then have "t div 86400000000000 \<le> - 106752" by linarith
    then have "86400000000000 * (t div 86400000000000) \<le> - 9223372800000000000" by linarith
    then show "t < - 9223286400000000000" using e m by linarith
  next
    assume a: "t < - 9223286400000000000"
    have "86400000000000 * (t div 86400000000000) < - 9223286400000000000" using a e m by linarith
    then have "t div 86400000000000 \<le> - 106752" by linarith
    then have "86400000000000 * (t div 86400000000000) \<le> - 9223372800000000000" by linarith
    then show "t - t mod 86400000000000 < - 9223372036854775808" using e by linarith
  qed
  then show ?thesis by (simp add: dt_normalize_def ns_24h_def)
qed

lemma dt_normalize_returns:
  "- 9223286400000000000 \<le> t \<Longrightarrow> dt_normalize t = Inr (t - t mod ns_24h)"
  using dt_normalize_raises [of t] by (auto simp: dt_normalize_def)

text \<open>
  \<open>groupby\<close> leaves out the rows whose key is missing. The zone of a row is never
  missing, and the date of a row is not the missing value \<open>NaT\<close> (the smallest \<open>int64\<close>),
  since one day does not divide \<open>2^63\<close>; so the aggregation sees every row of the table.
\<close>

lemma dt_normalize_not_NaT:
  assumes "dt_normalize t = Inr d"
  shows "d \<noteq> - 9223372036854775808"
proof
  assume a: "d = - 9223372036854775808"
  have "d = t - t mod 86400000000000"
    using assms by (simp add: dt_normalize_def ns_24h_def split: if_splits)
  then have "86400000000000 dvd d"
    by (simp add: dvd_eq_mod_eq_0 mod_diff_left_eq [symmetric])
  then have "(86400000000000::int) dvd - 9223372036854775808" using a by simp
  then show False by simp
qed

lemma with_date_returns:
  "\<forall>r\<in>set rows. - 9223286400000000000 \<le> pickup_datetime r \<Longrightarrow>
   \<exists>dated. with_date rows = Inr dated"
  by (induction rows) (auto simp: dt_normalize_returns)






lemma distinct_group_keys: "distinct (group_keys rows)"
  by (simp add: group_keys_def)




lemma print_ranges_rows: "rows \<noteq> [] \<Longrightarrow> \<exists>printed. print_ranges rows = Inr printed"
  by (cases rows) (simp_all add: print_ranges_def array_min_def array_max_def)

lemma pickup_times_trip_level:
  "pickup_datetime ` set (trip_level mem raw) = pickup_datetime ` set (clean_trips raw)"
proof -
  have "map pickup_datetime (trip_level mem raw) = map pickup_datetime (sort_values (clean_trips raw))"
    by (rule nth_equalityI) (simp_all add: trip_level_eq Let_def with_columns_def)
  then have "set (map pickup_datetime (trip_level mem raw))
      = set (map pickup_datetime (sort_values (clean_trips raw)))" by simp
  then show ?thesis by (simp add: sort_values_def)
qed


lemma trip_level_not_empty: "clean_trips raw \<noteq> [] \<Longrightarrow> trip_level mem raw \<noteq> []"
proof -
  assume "clean_trips raw \<noteq> []"
  then have "length (trip_level mem raw) \<noteq> 0" by (simp add: length_trip_level)
  then show ?thesis by simp
qed


lemma daily_zone_features_rows:
  assumes "clean_trips raw \<noteq> []"
    and "\<forall>e\<in>set (clean_trips raw). - 9223286400000000000 \<le> pickup_datetime e"
  shows "\<exists>dated. with_date (trip_level mem raw) = Inr dated
           \<and> daily_zone_features mem raw = Inr (groupby_agg dated)"
proof -
  have "trip_level mem raw \<noteq> []" using assms(1) by (rule trip_level_not_empty)
  then obtain printed where p: "print_ranges (trip_level mem raw) = Inr printed"
    using print_ranges_rows by blast
  have "\<forall>t\<in>pickup_datetime ` set (clean_trips raw). - 9223286400000000000 \<le> t"
    using assms(2) by blast
  then have "\<forall>t\<in>pickup_datetime ` set (trip_level mem raw). - 9223286400000000000 \<le> t"
    by (simp only: pickup_times_trip_level)
  then have "\<forall>r\<in>set (trip_level mem raw). - 9223286400000000000 \<le> pickup_datetime r"
    by blast
  then obtain dated where d: "with_date (trip_level mem raw) = Inr dated"
    using with_date_returns by blast
  then show ?thesis using p by (simp add: daily_zone_features_def Let_def)
qed

lemma daily_zone_features_Inr:
  assumes "daily_zone_features mem raw = Inr rows"
  shows "\<exists>dated. with_date (trip_level mem raw) = Inr dated \<and> rows = groupby_agg dated"
  using assms by (auto simp: daily_zone_features_def Let_def split: sum.splits)





lemma insort_key_pairs:
  fixes L :: "(int \<times> int) list"
  assumes "sorted_wrt (\<lambda>a b. fst a < fst b \<or> (fst a = fst b \<and> snd a \<le> snd b)) L"
    and "\<forall>y\<in>set L. snd x \<le> snd y"
  shows "sorted_wrt (\<lambda>a b. fst a < fst b \<or> (fst a = fst b \<and> snd a \<le> snd b)) (insort_key fst x L)"
  using assms
proof (induction L)
  case Nil
  then show ?case by simp
next
  case (Cons y L)
  show ?case
  proof (cases "fst x \<le> fst y")
    case True
    have "\<forall>z\<in>set (y # L). fst x < fst z \<or> (fst x = fst z \<and> snd x \<le> snd z)"
    proof
      fix z assume z: "z \<in> set (y # L)"
      then have "fst y \<le> fst z" using Cons.prems(1) by auto
      then show "fst x < fst z \<or> (fst x = fst z \<and> snd x \<le> snd z)"
        using True Cons.prems(2) z by force
    qed
    then show ?thesis using True Cons.prems(1) by simp
  next
    case False
    have "sorted_wrt (\<lambda>a b. fst a < fst b \<or> (fst a = fst b \<and> snd a \<le> snd b)) (insort_key fst x L)"
      using Cons by simp
    moreover have "\<forall>z\<in>set (insort_key fst x L). fst y < fst z \<or> (fst y = fst z \<and> snd y \<le> snd z)"
      using Cons.prems(1) False by (auto simp: set_insort_key)
    ultimately show ?thesis using False by simp
  qed
qed

lemma sort_key_pairs:
  fixes ys :: "(int \<times> int) list"
  shows "sorted (map snd ys) \<Longrightarrow>
    sorted_wrt (\<lambda>a b. fst a < fst b \<or> (fst a = fst b \<and> snd a \<le> snd b)) (sort_key fst ys)"
proof (induction ys)
  case Nil
  then show ?case by simp
next
  case (Cons y ys)
  then have "sorted_wrt (\<lambda>a b. fst a < fst b \<or> (fst a = fst b \<and> snd a \<le> snd b)) (sort_key fst ys)"
    by simp
  moreover have "\<forall>z\<in>set (sort_key fst ys). snd y \<le> snd z"
    using Cons.prems by simp
  ultimately show ?case by (simp add: insort_key_pairs)
qed

lemma sorted_wrt_distinct_strict:
  assumes "sorted_wrt R xs" "distinct xs"
  shows "sorted_wrt (\<lambda>a b. R a b \<and> a \<noteq> b) xs"
  using assms by (induction xs) auto

lemma group_keys_ascending:
  "sorted_wrt (\<lambda>a b. fst a < fst b \<or> (fst a = fst b \<and> snd a < snd b)) (group_keys rows)"
proof -
  have "sorted_wrt (\<lambda>a b. fst a < fst b \<or> (fst a = fst b \<and> snd a \<le> snd b)) (group_keys rows)"
    unfolding group_keys_def by (rule sort_key_pairs) simp
  then have "sorted_wrt (\<lambda>a b. (fst a < fst b \<or> (fst a = fst b \<and> snd a \<le> snd b)) \<and> a \<noteq> b)
      (group_keys rows)"
    using distinct_group_keys by (rule sorted_wrt_distinct_strict)
  then show ?thesis
    by (rule sorted_wrt_mono_rel [rotated]) (auto simp: prod_eq_iff)
qed

text \<open>
  Claim C9. What the script returns is a function of the input events alone: the only
  thing that can differ between two runs on the same input is what the uninitialised
  result arrays hold before the loop, and the result is the same for any two such
  contents \<open>mem\<close> and \<open>mem'\<close>. The rows of a returned daily table are in strictly
  ascending order of date, then zone, so no two rows share a date and a zone and the order
  of the rows is fixed. (The means are exact rationals here; the rounding of binary
  floating point is outside this development.)
\<close>

theorem daily_zone_features_deterministic:
  "daily_zone_features mem raw = daily_zone_features mem' raw
   \<and> (\<forall>rows. daily_zone_features mem raw = Inr rows \<longrightarrow>
         sorted_wrt (\<lambda>a b. date a < date b \<or> (date a = date b \<and> zone a < zone b)) rows)"
proof -
  have "trip_level mem raw = trip_level mem' raw"
    by (simp only: trip_level_eq)
  then have "daily_zone_features mem raw = daily_zone_features mem' raw"
    by (simp add: daily_zone_features_def)
  moreover have "sorted_wrt (\<lambda>a b. date a < date b \<or> (date a = date b \<and> zone a < zone b))
       (groupby_agg dated)" for dated
    using group_keys_ascending [of dated]
    by (simp add: groupby_agg_def sorted_wrt_map agg_def Let_def)
  ultimately show ?thesis using daily_zone_features_Inr by blast
qed

theorem daily_zone_features_deterministic_witness:
  "\<exists>rows. daily_zone_features (\<lambda>a i. 0)
     [\<lparr>raw_pickup_datetime = Some 1735819200000000000, raw_PULocationID = Some 7\<rparr>,
      \<lparr>raw_pickup_datetime = Some 1735693200000000000, raw_PULocationID = Some 9\<rparr>] = Inr rows
   \<and> sorted_wrt (\<lambda>a b. date a < date b \<or> (date a = date b \<and> zone a < zone b)) rows"
proof -
  let ?raw = "[\<lparr>raw_pickup_datetime = Some 1735819200000000000, raw_PULocationID = Some 7\<rparr>,
      \<lparr>raw_pickup_datetime = Some 1735693200000000000, raw_PULocationID = Some 9\<rparr>]"
  have c: "clean_trips ?raw = [\<lparr>pickup_datetime = 1735819200000000000, PULocationID = 7\<rparr>,
      \<lparr>pickup_datetime = 1735693200000000000, PULocationID = 9\<rparr>]"
    by (simp add: clean_trips_map astype_int32_def zone_is_float_def int32_def)
  have "clean_trips ?raw \<noteq> []"
    and "\<forall>e\<in>set (clean_trips ?raw). - 9223286400000000000 \<le> pickup_datetime e"
    by (simp_all add: c)
  then obtain rows where r: "daily_zone_features (\<lambda>a i. 0) ?raw = Inr rows"
    using daily_zone_features_rows [of ?raw "\<lambda>a i. 0"] by blast
  then show ?thesis
    using daily_zone_features_deterministic [of "\<lambda>a i. 0" ?raw "\<lambda>a i. 0"] by blast
qed

end
